theory Spec2Isabelle
  imports Main "HOL-Library.AList"
begin

section \<open>scope-log: the namespace tree of \<^verbatim>\<open>src/scopedLog.ts\<close>\<close>

text \<open>
  The module keeps one mutable tree of \<^verbatim>\<open>NamespaceNode\<close> objects in the variable
  \<^verbatim>\<open>_namespaces\<close>. \<^verbatim>\<open>findNearestNode\<close> hands out references to nodes of that tree and
  \<^verbatim>\<open>setLogLevel\<close> writes through them, so the objects live in an explicit store here:
  a reference is an index into the list of all objects created so far, creating an
  object appends it, and a field assignment replaces the object at its index.
  Thrown errors are values (\<open>Inl\<close>), and an operation returns the store it leaves behind
  together with its outcome.
\<close>

subsection \<open>Severities\<close>

text \<open>
  Modelled from the spec: the enum \<^verbatim>\<open>LogLevel\<close> is declared in \<^verbatim>\<open>types.js\<close>, which is
  not among the sources. The spec gives the order OFF < ERROR < WARN < INFO < LOG < DEBUG
  and says that comparisons are numeric; \<open>levelValue\<close> is that number.
\<close>

datatype LogLevel = OFF | ERROR | WARN | INFO | LOG | DEBUG

fun levelValue :: "LogLevel \<Rightarrow> nat" where
  "levelValue OFF = 0"
| "levelValue ERROR = 1"
| "levelValue WARN = 2"
| "levelValue INFO = 3"
| "levelValue LOG = 4"
| "levelValue DEBUG = 5"

text \<open>\<^verbatim>\<open>checkLevel <= level\<close> on two members of the enum.\<close>

definition levelLe :: "LogLevel \<Rightarrow> LogLevel \<Rightarrow> bool" where
  "levelLe checkLevel level = (levelValue checkLevel \<le> levelValue level)"

definition DEFAULT_ROOT_LEVEL :: LogLevel where
  "DEFAULT_ROOT_LEVEL = INFO"

subsection \<open>Constants, inputs and errors\<close>

text \<open>A namespace argument is the symbol \<^verbatim>\<open>RootNamespace\<close> or a string.\<close>

datatype namespace = RootNamespace | Str string

definition WILDCARD_NAMESPACE_TOKEN :: string where
  "WILDCARD_NAMESPACE_TOKEN = ''*''"

definition ROOT_NAMESPACE_KEY :: string where
  "ROOT_NAMESPACE_KEY = ''$''"

text \<open>One constructor for each \<^verbatim>\<open>throw new Error(...)\<close> of the file, in source order.\<close>

datatype error =
    NoNamespacesFound           \<comment> \<open>"No namespaces found invalid tree."\<close>
  | NoCascadingLevel            \<comment> \<open>"Invalid root namespace, no cascading level defined."\<close>
  | NamespaceExists             \<comment> \<open>"Namespace shoudn't exist in the tree."\<close>
  | TrailingColon               \<comment> \<open>"... cannot end with a colon ':'."\<close>
  | EmptySegment                \<comment> \<open>"... cannot contain empty segments ..."\<close>
  | EmptyNamespace              \<comment> \<open>"... cannot be empty."\<close>
  | WildcardNotAllowed          \<comment> \<open>"... cannot end with a wildcard token '*'."\<close>

subsection \<open>String operations of the host language\<close>

text \<open>
  \<^verbatim>\<open>s.endsWith(t)\<close>, \<^verbatim>\<open>s.includes(t)\<close> and \<^verbatim>\<open>s.split(c)\<close> for a one-character \<open>c\<close>. A
  string is the list of its characters. The file compares strings for equality and
  searches them for \<^verbatim>\<open>':'\<close> only, so how a character outside ASCII is encoded makes no
  difference to what these functions return.
\<close>

definition endsWith :: "string \<Rightarrow> string \<Rightarrow> bool" where
  "endsWith s t = (length t \<le> length s \<and> drop (length s - length t) s = t)"

definition startsWith :: "string \<Rightarrow> string \<Rightarrow> bool" where
  "startsWith s t = (take (length t) s = t)"

fun includesStr :: "string \<Rightarrow> string \<Rightarrow> bool" where
  "includesStr [] t = (t = [])"
| "includesStr (x # xs) t = (startsWith (x # xs) t \<or> includesStr xs t)"

text \<open>
  Splitting never returns the empty list: the empty string splits into one empty part,
  and every separator starts a new part.
\<close>

fun split :: "char \<Rightarrow> string \<Rightarrow> string list" where
  "split c [] = [[]]"
| "split c (x # xs) =
     (if x = c then [] # split c xs
      else (x # hd (split c xs)) # tl (split c xs))"

subsection \<open>Nodes and the store\<close>

text \<open>
  \<^verbatim>\<open>children\<close> is a \<^verbatim>\<open>Map<string, NamespaceNode>\<close>: an association list from keys to
  references, read with \<open>map_of\<close> and written with \<open>AList.update\<close>, which replaces the
  value of a key that is present and appends a new key otherwise, as \<^verbatim>\<open>Map.set\<close> does.
\<close>

type_synonym ref = nat

record NamespaceNode =
  namespacePart :: string
  children :: "(string \<times> ref) list"
  nodeLevel :: "LogLevel option"
  cascadingLevel :: "LogLevel option"

type_synonym heap = "NamespaceNode list"

record state =
  heap :: heap
  namespaces :: ref   \<comment> \<open>the module variable \<^verbatim>\<open>_namespaces\<close>\<close>

definition alloc :: "NamespaceNode \<Rightarrow> heap \<Rightarrow> ref \<times> heap" where
  "alloc node h = (length h, h @ [node])"

definition has :: "(string \<times> ref) list \<Rightarrow> string \<Rightarrow> bool" where
  "has m key = (map_of m key \<noteq> None)"

definition setChild :: "ref \<Rightarrow> string \<Rightarrow> ref \<Rightarrow> heap \<Rightarrow> heap" where
  \<comment> \<open>\<^verbatim>\<open>node.children.set(part, child)\<close>\<close>
  "setChild node part child h =
     h[node := (h ! node)\<lparr>children := AList.update part child (children (h ! node))\<rparr>]"

definition setNodeLevel :: "ref \<Rightarrow> LogLevel \<Rightarrow> heap \<Rightarrow> heap" where
  \<comment> \<open>\<^verbatim>\<open>node.nodeLevel = level\<close>\<close>
  "setNodeLevel node level h = h[node := (h ! node)\<lparr>nodeLevel := Some level\<rparr>]"

definition setCascadingLevel :: "ref \<Rightarrow> LogLevel \<Rightarrow> heap \<Rightarrow> heap" where
  \<comment> \<open>\<^verbatim>\<open>node.cascadingLevel = level\<close>\<close>
  "setCascadingLevel node level h = h[node := (h ! node)\<lparr>cascadingLevel := Some level\<rparr>]"

definition createRootNode :: NamespaceNode where
  "createRootNode =
     \<lparr>namespacePart = ROOT_NAMESPACE_KEY, children = [],
      nodeLevel = None, cascadingLevel = Some DEFAULT_ROOT_LEVEL\<rparr>"

text \<open>\<^verbatim>\<open>let _namespaces = createRootNode()\<close> when the module is loaded.\<close>

definition initial :: state where
  "initial = (case alloc createRootNode [] of (r, h) \<Rightarrow> \<lparr>heap = h, namespaces = r\<rparr>)"

text \<open>
  \<^verbatim>\<open>reset\<close> makes a new root object and points \<^verbatim>\<open>_namespaces\<close> at it; the objects of the
  old tree stay in the store, unreachable.
\<close>

definition reset :: "state \<Rightarrow> state" where
  "reset s = (case alloc createRootNode (heap s) of (r, h) \<Rightarrow> \<lparr>heap = h, namespaces = r\<rparr>)"

subsection \<open>\<^verbatim>\<open>namespaceParts\<close>\<close>

definition namespaceParts :: "namespace \<Rightarrow> bool \<Rightarrow> error + (string list \<times> bool)" where
  "namespaceParts namespace allowWildcard =
     (case namespace of
        RootNamespace \<Rightarrow> Inr ([], False)
      | Str ns \<Rightarrow>
          if ns = [] \<or> ns = ROOT_NAMESPACE_KEY then Inr ([], False)
          else if endsWith ns '':'' then Inl TrailingColon
          else if includesStr ns ''::'' then Inl EmptySegment
          else
            let parts = split (CHR '':'') ns in
            if length parts = 0 then Inl EmptyNamespace
            else
              let isWildcard = (last parts = WILDCARD_NAMESPACE_TOKEN) in
              if isWildcard \<and> \<not> allowWildcard then Inl WildcardNotAllowed
              else
                let parts' = (if isWildcard then butlast parts else parts) in
                if length parts' = 1 \<and> hd parts' = ROOT_NAMESPACE_KEY
                then Inr ([], isWildcard)
                else Inr (parts', isWildcard))"

subsection \<open>\<^verbatim>\<open>findNearestNode\<close>\<close>

text \<open>
  The loop of \<^verbatim>\<open>findNearestNode\<close>: \<open>currentNode\<close> and \<open>visited\<close> are its two variables,
  the list argument is \<^verbatim>\<open>namespaceParts.slice(i)\<close>. \<^verbatim>\<open>visited.unshift\<close> puts the new
  node in front.
\<close>

fun findNearestLoop :: "heap \<Rightarrow> ref \<Rightarrow> ref list \<Rightarrow> string list \<Rightarrow> ref list \<times> string list" where
  "findNearestLoop h currentNode visited [] = (visited, [])"
| "findNearestLoop h currentNode visited (part # rest) =
     (case map_of (children (h ! currentNode)) part of
        Some node \<Rightarrow> findNearestLoop h node (node # visited) rest
      | None \<Rightarrow> (visited, part # rest))"

definition findNearestNode :: "state \<Rightarrow> string list \<Rightarrow> ref list \<times> string list" where
  "findNearestNode s parts =
     findNearestLoop (heap s) (namespaces s) [namespaces s] parts"

subsection \<open>\<^verbatim>\<open>shouldLog\<close>\<close>

text \<open>The \<^verbatim>\<open>for (const node of nodes)\<close> loop with the \<^verbatim>\<open>throw\<close> after it.\<close>

fun searchUp :: "heap \<Rightarrow> LogLevel \<Rightarrow> ref list \<Rightarrow> error + bool" where
  "searchUp h checkLevel [] = Inl NoCascadingLevel"
| "searchUp h checkLevel (node # nodes) =
     (case cascadingLevel (h ! node) of
        Some level \<Rightarrow> Inr (levelLe checkLevel level)
      | None \<Rightarrow> searchUp h checkLevel nodes)"

text \<open>\<^verbatim>\<open>a ?? b\<close>\<close>

definition nullish :: "'a option \<Rightarrow> 'a option \<Rightarrow> 'a option" where
  "nullish a b = (case a of Some x \<Rightarrow> Some x | None \<Rightarrow> b)"

definition shouldLog :: "state \<Rightarrow> LogLevel \<Rightarrow> namespace \<Rightarrow> error + bool" where
  "shouldLog s checkLevel namespace =
     (case namespaceParts namespace False of
        Inl e \<Rightarrow> Inl e
      | Inr (parts, isWildcard) \<Rightarrow>
          (case findNearestNode s parts of
             (nodes, remaining) \<Rightarrow>
               if length nodes = 0 then Inl NoNamespacesFound
               else
                 (case (if length remaining = 0
                        then nullish (nodeLevel (heap s ! hd nodes))
                                     (cascadingLevel (heap s ! hd nodes))
                        else None) of
                    Some level \<Rightarrow> Inr (levelLe checkLevel level)
                  | None \<Rightarrow> searchUp (heap s) checkLevel nodes)))"

subsection \<open>\<^verbatim>\<open>setLogLevel\<close>\<close>

text \<open>
  The object a pass of the loop creates: the literal \<^verbatim>\<open>childNode\<close> with both levels
  null, and on the last part (\<^verbatim>\<open>i === remaining.length - 1\<close>) the level put into the
  slot that \<^verbatim>\<open>isWildcard\<close> selects.
\<close>

definition newChild :: "string \<Rightarrow> bool \<Rightarrow> bool \<Rightarrow> LogLevel \<Rightarrow> NamespaceNode" where
  "newChild part isLast isWildcard level =
     (let childNode = \<lparr>namespacePart = part, children = [],
                       nodeLevel = None, cascadingLevel = None\<rparr>
      in if isLast
         then (if isWildcard then childNode\<lparr>cascadingLevel := Some level\<rparr>
               else childNode\<lparr>nodeLevel := Some level\<rparr>)
         else childNode)"

text \<open>
  The loop that adds the remaining parts. The list argument is \<^verbatim>\<open>remaining.slice(i)\<close>,
  so the last pass is the one with \<open>rest = []\<close>. The child object enters the store once
  its level is set; nothing refers to it before \<^verbatim>\<open>children.set\<close>. A throw leaves the
  store as the passes before it made it.
\<close>

fun addRemaining ::
  "bool \<Rightarrow> LogLevel \<Rightarrow> ref \<Rightarrow> string list \<Rightarrow> heap \<Rightarrow> (error + unit) \<times> heap" where
  "addRemaining isWildcard level currentNode [] h = (Inr (), h)"
| "addRemaining isWildcard level currentNode (part # rest) h =
     (if has (children (h ! currentNode)) part then (Inl NamespaceExists, h)
      else
        case alloc (newChild part (rest = []) isWildcard level) h of
          (childNode, h1) \<Rightarrow>
            addRemaining isWildcard level childNode rest
              (setChild currentNode part childNode h1))"

definition setLogLevel :: "namespace \<Rightarrow> LogLevel \<Rightarrow> state \<Rightarrow> (error + unit) \<times> state" where
  "setLogLevel namespace level s =
     (case namespaceParts namespace True of
        Inl e \<Rightarrow> (Inl e, s)
      | Inr (parts, isWildcard) \<Rightarrow>
          (case findNearestNode s parts of
             (nodes, remaining) \<Rightarrow>
               if length nodes = 0 then (Inl NoNamespacesFound, s)
               else if length remaining = 0 then
                 (if isWildcard
                  then (Inr (), s\<lparr>heap := setCascadingLevel (hd nodes) level (heap s)\<rparr>)
                  else (Inr (), s\<lparr>heap := setNodeLevel (hd nodes) level (heap s)\<rparr>))
               else
                 (case addRemaining isWildcard level (hd nodes) remaining (heap s) of
                    (r, h) \<Rightarrow> (r, s\<lparr>heap := h\<rparr>))))"

subsection \<open>Sequences of calls\<close>

text \<open>
  The three exported operations on the tree. A call that throws returns to its caller
  with the store as the throw left it; the next call runs on that store.
\<close>

datatype call = SetLogLevel namespace LogLevel | ShouldLog LogLevel namespace | Reset

datatype outcome = Done | Answer bool

fun exec :: "call \<Rightarrow> state \<Rightarrow> (error + outcome) \<times> state" where
  "exec (SetLogLevel namespace level) s =
     (case setLogLevel namespace level s of
        (Inl e, s') \<Rightarrow> (Inl e, s')
      | (Inr u, s') \<Rightarrow> (Inr Done, s'))"
| "exec (ShouldLog checkLevel namespace) s =
     (case shouldLog s checkLevel namespace of
        Inl e \<Rightarrow> (Inl e, s)
      | Inr b \<Rightarrow> (Inr (Answer b), s))"
| "exec Reset s = (Inr Done, reset s)"

fun run :: "call list \<Rightarrow> state \<Rightarrow> state" where
  "run [] s = s"
| "run (c # cs) s = run cs (snd (exec c s))"

subsection \<open>Predicates on stores\<close>

text \<open>
  What a store of the running program always satisfies: a reference points at an
  object that exists, and a \<^verbatim>\<open>Map\<close> holds a key once. The model's lists allow more, so
  the two properties are stated and proved for every state the program can reach.
\<close>

definition refsValid :: "heap \<Rightarrow> bool" where
  "refsValid h = (\<forall>n \<in> set h. \<forall>kc \<in> set (children n). snd kc < length h)"

definition keysDistinct :: "heap \<Rightarrow> bool" where
  "keysDistinct h = (\<forall>n \<in> set h. distinct (map fst (children n)))"

definition wellFormed :: "state \<Rightarrow> bool" where
  "wellFormed s =
     (namespaces s < length (heap s) \<and> refsValid (heap s) \<and> keysDistinct (heap s))"

definition rootCascades :: "state \<Rightarrow> bool" where
  "rootCascades s = (cascadingLevel (heap s ! namespaces s) \<noteq> None)"

subsection \<open>Observations on stores\<close>

text \<open>
  The nodes at a path: every node that following the parts from \<open>node\<close> through
  matching entries of \<^verbatim>\<open>children\<close> leads to, once for each way of getting there. A path
  with exactly one node has a one-element list.
\<close>

fun nodesAt :: "heap \<Rightarrow> ref \<Rightarrow> string list \<Rightarrow> ref list" where
  "nodesAt h node [] = [node]"
| "nodesAt h node (part # rest) =
     concat (map (\<lambda>kc. nodesAt h (snd kc) rest)
                 (filter (\<lambda>kc. fst kc = part) (children (h ! node))))"

text \<open>The level slot that \<^verbatim>\<open>isWildcard\<close> selects.\<close>

definition levelSlot :: "bool \<Rightarrow> NamespaceNode \<Rightarrow> LogLevel option" where
  "levelSlot isWildcard node = (if isWildcard then cascadingLevel node else nodeLevel node)"

subsection \<open>Predicates on calls\<close>

text \<open>
  A call is free of the wildcard token when it is not a \<^verbatim>\<open>setLogLevel\<close> whose parts, as
  \<^verbatim>\<open>namespaceParts\<close> returns them, still hold a \<^verbatim>\<open>"*"\<close>.
\<close>

definition wildcardFree :: "call \<Rightarrow> bool" where
  "wildcardFree c =
     (case c of
        SetLogLevel namespace level \<Rightarrow>
          (case namespaceParts namespace True of
             Inl e \<Rightarrow> True
           | Inr (parts, isWildcard) \<Rightarrow> WILDCARD_NAMESPACE_TOKEN \<notin> set parts)
      | ShouldLog checkLevel namespace \<Rightarrow> True
      | Reset \<Rightarrow> True)"

section \<open>Properties of the store operations\<close>

lemma length_setChild [simp]: "length (setChild n p c h) = length h"
  by (simp add: setChild_def)

lemma length_setNodeLevel [simp]: "length (setNodeLevel n l h) = length h"
  by (simp add: setNodeLevel_def)

lemma length_setCascadingLevel [simp]: "length (setCascadingLevel n l h) = length h"
  by (simp add: setCascadingLevel_def)

lemma map_of_valid: "refsValid h \<Longrightarrow> a < length h \<Longrightarrow> map_of (children (h ! a)) p = Some c \<Longrightarrow> c < length h"
  unfolding refsValid_def by (metis map_of_SomeD nth_mem snd_conv)

lemma findNearestLoop_append:
  "\<exists>pre. fst (findNearestLoop h cur vis ps) = pre @ vis"
  by (induction ps arbitrary: cur vis) (auto split: option.splits, metis append_Cons append_assoc append_Nil)

lemma findNearestLoop_valid:
  "refsValid h \<Longrightarrow> cur < length h \<Longrightarrow> \<forall>a \<in> set vis. a < length h \<Longrightarrow>
   \<forall>a \<in> set (fst (findNearestLoop h cur vis ps)). a < length h"
proof (induction ps arbitrary: cur vis)
  case Nil then show ?case by simp
next
  case (Cons p ps)
  show ?case
  proof (cases "map_of (children (h ! cur)) p")
    case None then show ?thesis using Cons.prems by simp
  next
    case (Some c)
    have "c < length h" using map_of_valid[OF Cons.prems(1,2) Some] .
    then show ?thesis using Some Cons.IH[of c "c # vis"] Cons.prems by simp
  qed
qed

lemma findNearestLoop_missing:
  "findNearestLoop h cur (cur # vis) ps = (nodes, p # rest) \<Longrightarrow>
   map_of (children (h ! hd nodes)) p = None"
  by (induction ps arbitrary: cur vis) (auto split: option.splits)



lemma set_update_subset: "set (AList.update k v al) \<subseteq> insert (k, v) (set al)"
  by (induction al) auto

lemma refsValid_append:
  "refsValid h \<Longrightarrow> \<forall>kc \<in> set (children n). snd kc \<le> length h \<Longrightarrow> refsValid (h @ [n])"
  unfolding refsValid_def by fastforce

lemma refsValid_nth: "refsValid h \<Longrightarrow> a < length h \<Longrightarrow> kc \<in> set (children (h ! a)) \<Longrightarrow> snd kc < length h"
  unfolding refsValid_def by auto

lemma keysDistinct_nth: "keysDistinct h \<Longrightarrow> a < length h \<Longrightarrow> distinct (map fst (children (h ! a)))"
  unfolding keysDistinct_def by auto

lemma refsValid_update:
  assumes "refsValid h" "a < length h \<Longrightarrow> \<forall>kc \<in> set (children n). snd kc < length h"
  shows "refsValid (h[a := n])"
proof (cases "a < length h")
  case True
  have "set (h[a := n]) \<subseteq> insert n (set h)" by (rule set_update_subset_insert)
  then show ?thesis using assms True unfolding refsValid_def by auto
next
  case False
  then show ?thesis using assms(1) by (simp add: list_update_beyond)
qed

lemma keysDistinct_update:
  assumes "keysDistinct h" "a < length h \<Longrightarrow> distinct (map fst (children n))"
  shows "keysDistinct (h[a := n])"
proof (cases "a < length h")
  case True
  have "set (h[a := n]) \<subseteq> insert n (set h)" by (rule set_update_subset_insert)
  then show ?thesis using assms True unfolding keysDistinct_def by auto
next
  case False
  then show ?thesis using assms(1) by (simp add: list_update_beyond)
qed

lemma refsValid_setChild:
  assumes "refsValid h" "c < length h"
  shows "refsValid (setChild n p c h)"
  unfolding setChild_def
proof (rule refsValid_update[OF assms(1)])
  assume n: "n < length h"
  show "\<forall>kc\<in>set (children ((h ! n)\<lparr>children := AList.update p c (children (h ! n))\<rparr>)).
           snd kc < length h"
  proof
    fix kc
    assume "kc \<in> set (children ((h ! n)\<lparr>children := AList.update p c (children (h ! n))\<rparr>))"
    with set_update_subset[of p c "children (h ! n)"]
    have "kc = (p, c) \<or> kc \<in> set (children (h ! n))" by auto
    then show "snd kc < length h"
    proof
      assume "kc = (p, c)" then show ?thesis using assms(2) by simp
    next
      assume "kc \<in> set (children (h ! n))"
      then show ?thesis by (rule refsValid_nth[OF assms(1) n])
    qed
  qed
qed

lemma keysDistinct_setChild:
  assumes "keysDistinct h"
  shows "keysDistinct (setChild n p c h)"
  unfolding setChild_def
  by (rule keysDistinct_update[OF assms]) (simp add: distinct_update keysDistinct_nth[OF assms])

lemma refsValid_setNodeLevel: "refsValid h \<Longrightarrow> refsValid (setNodeLevel n l h)"
  unfolding setNodeLevel_def
  by (rule refsValid_update) (auto dest: refsValid_nth)

lemma refsValid_setCascadingLevel: "refsValid h \<Longrightarrow> refsValid (setCascadingLevel n l h)"
  unfolding setCascadingLevel_def
  by (rule refsValid_update) (auto dest: refsValid_nth)

lemma keysDistinct_setNodeLevel: "keysDistinct h \<Longrightarrow> keysDistinct (setNodeLevel n l h)"
  unfolding setNodeLevel_def
  by (rule keysDistinct_update) (auto dest: keysDistinct_nth)

lemma keysDistinct_setCascadingLevel: "keysDistinct h \<Longrightarrow> keysDistinct (setCascadingLevel n l h)"
  unfolding setCascadingLevel_def
  by (rule keysDistinct_update) (auto dest: keysDistinct_nth)

lemma keysDistinct_append:
  "keysDistinct h \<Longrightarrow> distinct (map fst (children n)) \<Longrightarrow> keysDistinct (h @ [n])"
  unfolding keysDistinct_def by auto

subsection \<open>The loop that adds the remaining parts\<close>

lemma newChild_fields [simp]:
  "namespacePart (newChild part isLast w l) = part"
  "children (newChild part isLast w l) = []"
  by (simp_all add: newChild_def Let_def)

lemma newChild_levels:
  "nodeLevel (newChild part isLast w l) = (if isLast \<and> \<not> w then Some l else None)"
  "cascadingLevel (newChild part isLast w l) = (if isLast \<and> w then Some l else None)"
  by (simp_all add: newChild_def Let_def)

lemma addRemaining_Cons:
  "\<not> has (children (h ! cur)) p \<Longrightarrow>
   addRemaining w l cur (p # ps) h =
     addRemaining w l (length h) ps
       (setChild cur p (length h) (h @ [newChild p (ps = []) w l]))"
  by (simp add: alloc_def)

lemma addRemaining_length: "length h \<le> length (snd (addRemaining w l cur ps h))"
proof (induction ps arbitrary: cur h)
  case Nil show ?case by simp
next
  case (Cons p ps)
  show ?case
  proof (cases "has (children (h ! cur)) p")
    case True then show ?thesis by simp
  next
    case False
    show ?thesis unfolding addRemaining_Cons[OF False]
      by (rule order_trans[OF _ Cons.IH]) simp
  qed
qed

lemma addRemaining_refsValid:
  "refsValid h \<Longrightarrow> refsValid (snd (addRemaining w l cur ps h))"
proof (induction ps arbitrary: cur h)
  case Nil then show ?case by simp
next
  case (Cons p ps)
  show ?case
  proof (cases "has (children (h ! cur)) p")
    case True then show ?thesis using Cons.prems by simp
  next
    case False
    have "refsValid (h @ [newChild p (ps = []) w l])"
      using Cons.prems by (rule refsValid_append) simp
    then have "refsValid (setChild cur p (length h) (h @ [newChild p (ps = []) w l]))"
      by (rule refsValid_setChild) simp
    then show ?thesis unfolding addRemaining_Cons[OF False] by (rule Cons.IH)
  qed
qed

lemma addRemaining_keysDistinct:
  "keysDistinct h \<Longrightarrow> keysDistinct (snd (addRemaining w l cur ps h))"
proof (induction ps arbitrary: cur h)
  case Nil then show ?case by simp
next
  case (Cons p ps)
  show ?case
  proof (cases "has (children (h ! cur)) p")
    case True then show ?thesis using Cons.prems by simp
  next
    case False
    have "keysDistinct (h @ [newChild p (ps = []) w l])"
      using Cons.prems by (rule keysDistinct_append) simp
    then have "keysDistinct (setChild cur p (length h) (h @ [newChild p (ps = []) w l]))"
      by (rule keysDistinct_setChild)
    then show ?thesis unfolding addRemaining_Cons[OF False] by (rule Cons.IH)
  qed
qed

text \<open>The child a pass has just made is found in the store, with no children yet.\<close>

lemma setChild_new:
  "cur < length h \<Longrightarrow> setChild cur p c (h @ [x]) ! length h = x"
  by (simp add: setChild_def)

lemma addRemaining_ok:
  "cur < length h \<Longrightarrow> (ps \<noteq> [] \<longrightarrow> map_of (children (h ! cur)) (hd ps) = None) \<Longrightarrow>
   fst (addRemaining w l cur ps h) = Inr ()"
proof (induction ps arbitrary: cur h)
  case Nil then show ?case by simp
next
  case (Cons p ps)
  have no: "\<not> has (children (h ! cur)) p" using Cons.prems(2) by (simp add: has_def)
  let ?h1 = "setChild cur p (length h) (h @ [newChild p (ps = []) w l])"
  have c: "children (?h1 ! length h) = []" using Cons.prems(1) by (simp add: setChild_new)
  have "map_of (children (?h1 ! length h)) q = None" for q unfolding c by simp
  then have "ps \<noteq> [] \<longrightarrow> map_of (children (?h1 ! length h)) (hd ps) = None" by blast
  moreover have "length h < length ?h1" by simp
  ultimately show ?case unfolding addRemaining_Cons[OF no] by (rule Cons.IH[rotated])
qed

lemma findNearestNode_nodes:
  assumes "findNearestNode s parts = (nodes, remaining)"
  shows "nodes \<noteq> []" and "namespaces s \<in> set nodes"
proof -
  obtain pre where "fst (findNearestNode s parts) = pre @ [namespaces s]"
    unfolding findNearestNode_def using findNearestLoop_append by blast
  then have "nodes = pre @ [namespaces s]" using assms by simp
  then show "nodes \<noteq> []" and "namespaces s \<in> set nodes" by simp_all
qed

lemma findNearestNode_valid:
  assumes "wellFormed s" "findNearestNode s parts = (nodes, remaining)"
  shows "\<forall>a \<in> set nodes. a < length (heap s)"
  using findNearestLoop_valid[of "heap s" "namespaces s" "[namespaces s]" parts] assms
  by (simp add: wellFormed_def findNearestNode_def)

lemma findNearestNode_missing:
  assumes "findNearestNode s parts = (nodes, p # rest)"
  shows "map_of (children (heap s ! hd nodes)) p = None"
  using assms unfolding findNearestNode_def by (rule findNearestLoop_missing)

lemma heap_setLogLevel:
  "heap (snd (setLogLevel ns l s)) =
     (case namespaceParts ns True of
        Inl e \<Rightarrow> heap s
      | Inr (parts, w) \<Rightarrow>
          (case findNearestNode s parts of
             (nodes, remaining) \<Rightarrow>
               if remaining = [] then
                 (if w then setCascadingLevel (hd nodes) l (heap s)
                  else setNodeLevel (hd nodes) l (heap s))
               else snd (addRemaining w l (hd nodes) remaining (heap s))))"
  by (auto simp: setLogLevel_def findNearestNode_nodes(1) split: sum.splits prod.splits)

lemma fst_setLogLevel:
  "fst (setLogLevel ns l s) =
     (case namespaceParts ns True of
        Inl e \<Rightarrow> Inl e
      | Inr (parts, w) \<Rightarrow>
          (case findNearestNode s parts of
             (nodes, remaining) \<Rightarrow>
               if remaining = [] then Inr ()
               else fst (addRemaining w l (hd nodes) remaining (heap s))))"
  by (auto simp: setLogLevel_def findNearestNode_nodes(1) split: sum.splits prod.splits)

lemma namespaces_setLogLevel: "namespaces (snd (setLogLevel ns l s)) = namespaces s"
  by (simp add: setLogLevel_def split: sum.splits prod.splits)

lemma snd_exec:
  "snd (exec c s) = (case c of SetLogLevel ns l \<Rightarrow> snd (setLogLevel ns l s)
                     | ShouldLog l ns \<Rightarrow> s | Reset \<Rightarrow> reset s)"
  by (cases c) (auto split: prod.splits sum.splits)

lemma setLogLevel_length: "length (heap s) \<le> length (heap (snd (setLogLevel ns l s)))"
  by (simp add: heap_setLogLevel addRemaining_length split: sum.splits prod.splits)

lemma setLogLevel_wellFormed:
  assumes "wellFormed s"
  shows "wellFormed (snd (setLogLevel ns l s))"
proof -
  have rv: "refsValid (heap (snd (setLogLevel ns l s)))"
    using assms
    by (simp add: heap_setLogLevel wellFormed_def refsValid_setNodeLevel refsValid_setCascadingLevel
        addRemaining_refsValid split: sum.splits prod.splits)
  have kd: "keysDistinct (heap (snd (setLogLevel ns l s)))"
    using assms
    by (simp add: heap_setLogLevel wellFormed_def keysDistinct_setNodeLevel
        keysDistinct_setCascadingLevel addRemaining_keysDistinct split: sum.splits prod.splits)
  have "namespaces s < length (heap (snd (setLogLevel ns l s)))"
    using assms setLogLevel_length[of s ns l] by (simp add: wellFormed_def)
  then show ?thesis using rv kd by (simp add: wellFormed_def namespaces_setLogLevel)
qed

lemma reset_wellFormed: "wellFormed s \<Longrightarrow> wellFormed (reset s)"
  by (auto simp: wellFormed_def reset_def alloc_def createRootNode_def
      intro!: refsValid_append keysDistinct_append)

lemma initial_wellFormed: "wellFormed initial"
  by (simp add: wellFormed_def initial_def alloc_def createRootNode_def refsValid_def keysDistinct_def)

lemma exec_wellFormed: "wellFormed s \<Longrightarrow> wellFormed (snd (exec c s))"
  by (simp add: snd_exec setLogLevel_wellFormed reset_wellFormed split: call.splits)

lemma run_wellFormed: "wellFormed s \<Longrightarrow> wellFormed (run cs s)"
  by (induction cs arbitrary: s) (simp_all add: exec_wellFormed)


text \<open>The loop changes nothing but the children of the objects that were there before.\<close>

lemma nth_update_if: "r < length h \<Longrightarrow> h[n := x] ! r = (if n = r then x else h ! r)"
  by (cases "n = r") simp_all

lemma setChild_frame:
  "r < length h \<Longrightarrow>
   namespacePart (setChild n p c h ! r) = namespacePart (h ! r) \<and>
   nodeLevel (setChild n p c h ! r) = nodeLevel (h ! r) \<and>
   cascadingLevel (setChild n p c h ! r) = cascadingLevel (h ! r)"
  by (simp add: setChild_def nth_update_if)

lemma addRemaining_other:
  "a < length h \<Longrightarrow> a \<noteq> cur \<Longrightarrow> snd (addRemaining w l cur ps h) ! a = h ! a"
proof (induction ps arbitrary: cur h)
  case Nil then show ?case by simp
next
  case (Cons p ps)
  show ?case
  proof (cases "has (children (h ! cur)) p")
    case True then show ?thesis by simp
  next
    case False
    let ?h1 = "setChild cur p (length h) (h @ [newChild p (ps = []) w l])"
    have "snd (addRemaining w l (length h) ps ?h1) ! a = ?h1 ! a"
      using Cons.prems(1) by (intro Cons.IH) simp_all
    also have "?h1 ! a = h ! a"
      using Cons.prems by (simp add: setChild_def nth_append)
    finally show ?thesis unfolding addRemaining_Cons[OF False] .
  qed
qed

lemma addRemaining_current:
  assumes "cur < length h" "\<not> has (children (h ! cur)) p"
  shows "snd (addRemaining w l cur (p # ps) h) ! cur =
           (h ! cur)\<lparr>children := AList.update p (length h) (children (h ! cur))\<rparr>"
proof -
  let ?h1 = "setChild cur p (length h) (h @ [newChild p (ps = []) w l])"
  have "snd (addRemaining w l (length h) ps ?h1) ! cur = ?h1 ! cur"
    using assms(1) by (intro addRemaining_other) simp_all
  also have "?h1 ! cur = (h ! cur)\<lparr>children := AList.update p (length h) (children (h ! cur))\<rparr>"
    using assms(1) by (simp add: setChild_def nth_append)
  finally show ?thesis unfolding addRemaining_Cons[OF assms(2)] .
qed

lemma addRemaining_frame:
  assumes "r < length h"
  shows "namespacePart (snd (addRemaining w l cur ps h) ! r) = namespacePart (h ! r) \<and>
         nodeLevel (snd (addRemaining w l cur ps h) ! r) = nodeLevel (h ! r) \<and>
         cascadingLevel (snd (addRemaining w l cur ps h) ! r) = cascadingLevel (h ! r)"
proof (cases "r = cur \<and> ps \<noteq> [] \<and> \<not> has (children (h ! cur)) (hd ps)")
  case True
  then obtain p ps' where ps: "ps = p # ps'" by (cases ps) auto
  have "\<not> has (children (h ! r)) p" "r = cur" using True ps by simp_all
  then show ?thesis using assms unfolding ps
    by (simp add: addRemaining_current del: addRemaining.simps)
next
  case False
  show ?thesis
  proof (cases "r = cur")
    case r: True
    then have "snd (addRemaining w l cur ps h) = h" using False by (cases ps) auto
    then show ?thesis by simp
  next
    case r: False
    then show ?thesis using assms by (simp add: addRemaining_other)
  qed
qed

lemma setLogLevel_rootCascades:
  assumes "wellFormed s" "rootCascades s"
  shows "rootCascades (snd (setLogLevel ns l s))"
proof -
  have r: "namespaces s < length (heap s)" using assms(1) by (simp add: wellFormed_def)
  show ?thesis
    using assms(2) r
    by (simp add: rootCascades_def namespaces_setLogLevel heap_setLogLevel addRemaining_frame
        setNodeLevel_def setCascadingLevel_def nth_update_if split: sum.splits prod.splits)
qed

lemma setLogLevel_keeps_cascadingLevel:
  assumes "r < length (heap s)" "cascadingLevel (heap s ! r) \<noteq> None"
  shows "cascadingLevel (heap (snd (setLogLevel ns l s)) ! r) \<noteq> None"
  using assms
  by (simp add: heap_setLogLevel addRemaining_frame setNodeLevel_def setCascadingLevel_def
      nth_update_if split: sum.splits prod.splits)

lemma exec_keeps_cascadingLevel:
  assumes "r < length (heap s)" "cascadingLevel (heap s ! r) \<noteq> None"
  shows "cascadingLevel (heap (snd (exec c s)) ! r) \<noteq> None"
proof (cases c)
  case (SetLogLevel ns l)
  then show ?thesis using setLogLevel_keeps_cascadingLevel[OF assms]
    by (simp add: snd_exec del: exec.simps)
next
  case (ShouldLog l ns)
  then show ?thesis using assms by (simp add: snd_exec del: exec.simps)
next
  case Reset
  then show ?thesis using assms by (simp add: reset_def alloc_def nth_append)
qed

lemma reset_rootCascades: "rootCascades (reset s)"
  by (simp add: rootCascades_def reset_def alloc_def createRootNode_def)

lemma initial_rootCascades: "rootCascades initial"
  by (simp add: rootCascades_def initial_def alloc_def createRootNode_def)

lemma run_invariant:
  "wellFormed s \<Longrightarrow> rootCascades s \<Longrightarrow> wellFormed (run cs s) \<and> rootCascades (run cs s)"
proof (induction cs arbitrary: s)
  case Nil then show ?case by simp
next
  case (Cons c cs)
  have "wellFormed (snd (exec c s))" using Cons.prems(1) by (rule exec_wellFormed)
  moreover have "rootCascades (snd (exec c s))"
    using Cons.prems
    by (simp add: snd_exec setLogLevel_rootCascades reset_rootCascades split: call.splits)
  ultimately show ?case using Cons.IH by simp
qed

lemma searchUp_finds:
  "r \<in> set nodes \<Longrightarrow> cascadingLevel (h ! r) \<noteq> None \<Longrightarrow> \<exists>b. searchUp h checkLevel nodes = Inr b"
  by (induction nodes) (auto split: option.splits)

lemma shouldLog_total:
  assumes "rootCascades s" "namespaceParts ns False = Inr x"
  shows "\<exists>b. shouldLog s checkLevel ns = Inr b"
proof -
  obtain parts w where x: "x = (parts, w)" by (cases x)
  obtain nodes remaining where f: "findNearestNode s parts = (nodes, remaining)"
    by (cases "findNearestNode s parts")
  have "\<exists>b. searchUp (heap s) checkLevel nodes = Inr b"
    using findNearestNode_nodes(2)[OF f] assms(1) by (auto simp: rootCascades_def intro: searchUp_finds)
  then show ?thesis
    using assms(2) x f findNearestNode_nodes(1)[OF f]
    by (auto simp: shouldLog_def split: option.splits)
qed

lemma setLogLevel_total:
  assumes "wellFormed s" "namespaceParts ns True = Inr x"
  shows "fst (setLogLevel ns l s) = Inr ()"
proof -
  obtain parts w where x: "x = (parts, w)" by (cases x)
  obtain nodes remaining where f: "findNearestNode s parts = (nodes, remaining)"
    by (cases "findNearestNode s parts")
  show ?thesis
  proof (cases remaining)
    case Nil
    then show ?thesis using assms(2) x f by (simp add: fst_setLogLevel)
  next
    case (Cons p rest)
    have "hd nodes < length (heap s)"
      using findNearestNode_valid[OF assms(1) f] findNearestNode_nodes(1)[OF f] by simp
    moreover have "map_of (children (heap s ! hd nodes)) p = None"
      using f Cons findNearestNode_missing by blast
    ultimately have "fst (addRemaining w l (hd nodes) remaining (heap s)) = Inr ()"
      using Cons by (intro addRemaining_ok) auto
    then show ?thesis using assms(2) x f Cons by (simp add: fst_setLogLevel)
  qed
qed

section \<open>Parsing and the two operations on reachable states\<close>

lemmas parse_defs = namespaceParts_def endsWith_def startsWith_def ROOT_NAMESPACE_KEY_def
  WILDCARD_NAMESPACE_TOKEN_def Let_def

lemma namespaceParts_errors:
  "namespaceParts ns b = Inl e \<Longrightarrow>
   e = TrailingColon \<or> e = EmptySegment \<or> e = EmptyNamespace \<or> e = WildcardNotAllowed"
  by (auto simp: namespaceParts_def Let_def split: namespace.splits if_splits)

lemma fst_exec_SetLogLevel:
  "fst (exec (SetLogLevel ns l) s) =
     (case fst (setLogLevel ns l s) of Inl e \<Rightarrow> Inl e | Inr u \<Rightarrow> Inr Done)"
  by (cases "setLogLevel ns l s") (auto split: sum.splits)

lemma reachable_invariant: "wellFormed (run cs initial)" "rootCascades (run cs initial)"
  using run_invariant[OF initial_wellFormed initial_rootCascades] by simp_all

lemma shouldLog_fresh:
  assumes "children (heap s ! namespaces s) = []" "nodeLevel (heap s ! namespaces s) = None"
    "cascadingLevel (heap s ! namespaces s) = Some L"
  shows "shouldLog s c ns =
    (case namespaceParts ns False of Inl e \<Rightarrow> Inl e | Inr x \<Rightarrow> Inr (levelLe c L))"
proof -
  have "findNearestNode s parts = ([namespaces s], parts)" for parts
    using assms(1) by (cases parts) (simp_all add: findNearestNode_def)
  then show ?thesis using assms(2,3)
    by (simp add: shouldLog_def nullish_def split: sum.splits prod.splits)
qed

subsection \<open>Segments\<close>

lemma split_nonempty: "split c s \<noteq> []"
  by (induction s) auto

lemma split_no_separator: "p \<in> set (split c s) \<Longrightarrow> c \<notin> set p"
proof (induction s arbitrary: p)
  case Nil then show ?case by simp
next
  case (Cons x xs)
  show ?case
  proof (cases "x = c")
    case True then show ?thesis using Cons by auto
  next
    case False
    then have "p = x # hd (split c xs) \<or> p \<in> set (tl (split c xs))" using Cons.prems by simp
    then show ?thesis
    proof
      assume "p = x # hd (split c xs)"
      moreover have "hd (split c xs) \<in> set (split c xs)" using split_nonempty by simp
      ultimately show ?thesis using False Cons.IH by auto
    next
      assume "p \<in> set (tl (split c xs))"
      then have "p \<in> set (split c xs)" by (rule list.set_sel(2)[OF split_nonempty])
      then show ?thesis by (rule Cons.IH)
    qed
  qed
qed

lemma namespaceParts_subset:
  "namespaceParts (Str ns) b = Inr (parts, w) \<Longrightarrow> set parts \<subseteq> set (split (CHR '':'') ns)"
  by (auto simp: namespaceParts_def Let_def split: if_splits dest: in_set_butlastD)

lemma namespaceParts_no_delimiter:
  assumes "namespaceParts ns b = Inr (parts, w)" "p \<in> set parts"
  shows "CHR '':'' \<notin> set p"
proof (cases ns)
  case RootNamespace
  then show ?thesis using assms by (simp add: namespaceParts_def)
next
  case (Str str)
  then have "p \<in> set (split (CHR '':'') str)" using assms namespaceParts_subset by blast
  then show ?thesis by (rule split_no_separator)
qed

lemma findNearestLoop_remaining: "set (snd (findNearestLoop h cur vis ps)) \<subseteq> set ps"
  by (induction ps arbitrary: cur vis) (auto split: option.splits)

lemma update_parts:
  assumes "\<forall>n \<in> set h. P (namespacePart n)" "a < length h \<Longrightarrow> P (namespacePart x)"
  shows "\<forall>n \<in> set (h[a := x]). P (namespacePart n)"
proof (cases "a < length h")
  case True
  have "set (h[a := x]) \<subseteq> insert x (set h)" by (rule set_update_subset_insert)
  then show ?thesis using assms True by auto
next
  case False
  then show ?thesis using assms(1) by (simp add: list_update_beyond)
qed

lemma setChild_parts:
  "\<forall>n \<in> set h. P (namespacePart n) \<Longrightarrow> \<forall>n \<in> set (setChild a p c h). P (namespacePart n)"
  unfolding setChild_def by (rule update_parts) simp_all

lemma setNodeLevel_parts:
  "\<forall>n \<in> set h. P (namespacePart n) \<Longrightarrow> \<forall>n \<in> set (setNodeLevel a l h). P (namespacePart n)"
  unfolding setNodeLevel_def by (rule update_parts) simp_all

lemma setCascadingLevel_parts:
  "\<forall>n \<in> set h. P (namespacePart n) \<Longrightarrow> \<forall>n \<in> set (setCascadingLevel a l h). P (namespacePart n)"
  unfolding setCascadingLevel_def by (rule update_parts) simp_all

lemma addRemaining_parts:
  "\<forall>n \<in> set h. P (namespacePart n) \<Longrightarrow> \<forall>p \<in> set ps. P p \<Longrightarrow>
   \<forall>n \<in> set (snd (addRemaining w l cur ps h)). P (namespacePart n)"
proof (induction ps arbitrary: cur h)
  case Nil then show ?case by simp
next
  case (Cons p ps)
  show ?case
  proof (cases "has (children (h ! cur)) p")
    case True
    then show ?thesis using Cons.prems(1) by simp
  next
    case False
    have "\<forall>n \<in> set (h @ [newChild p (ps = []) w l]). P (namespacePart n)"
      using Cons.prems by simp
    then have "\<forall>n \<in> set (setChild cur p (length h) (h @ [newChild p (ps = []) w l])).
                 P (namespacePart n)"
      by (rule setChild_parts)
    moreover have "\<forall>q \<in> set ps. P q" using Cons.prems(2) by simp
    ultimately show ?thesis unfolding addRemaining_Cons[OF False] by (rule Cons.IH)
  qed
qed

lemma setLogLevel_parts:
  assumes "\<forall>n \<in> set (heap s). P (namespacePart n)"
    and "\<And>parts w. namespaceParts ns True = Inr (parts, w) \<Longrightarrow> \<forall>p \<in> set parts. P p"
  shows "\<forall>n \<in> set (heap (snd (setLogLevel ns l s))). P (namespacePart n)"
proof (cases "namespaceParts ns True")
  case (Inl e)
  then show ?thesis using assms(1) by (simp add: heap_setLogLevel)
next
  case (Inr x)
  obtain parts w where x: "x = (parts, w)" by (cases x)
  obtain nodes remaining where f: "findNearestNode s parts = (nodes, remaining)"
    by (cases "findNearestNode s parts")
  have "set remaining \<subseteq> set parts"
    using findNearestLoop_remaining[of "heap s" "namespaces s" "[namespaces s]" parts] f
    by (simp add: findNearestNode_def)
  then have "\<forall>p \<in> set remaining. P p" using assms(2)[of parts w] Inr x by auto
  then have a: "\<forall>n \<in> set (snd (addRemaining w l (hd nodes) remaining (heap s))). P (namespacePart n)"
    using assms(1) by (intro addRemaining_parts)
  have b: "\<forall>n \<in> set (setNodeLevel (hd nodes) l (heap s)). P (namespacePart n)"
    using assms(1) by (rule setNodeLevel_parts)
  have c: "\<forall>n \<in> set (setCascadingLevel (hd nodes) l (heap s)). P (namespacePart n)"
    using assms(1) by (rule setCascadingLevel_parts)
  have "heap (snd (setLogLevel ns l s)) =
          (if remaining = [] then
             (if w then setCascadingLevel (hd nodes) l (heap s)
              else setNodeLevel (hd nodes) l (heap s))
           else snd (addRemaining w l (hd nodes) remaining (heap s)))"
    using Inr x f by (simp add: heap_setLogLevel)
  then show ?thesis using a b c by presburger
qed

lemma run_parts:
  assumes "\<forall>n \<in> set (heap s). P (namespacePart n)" "P ROOT_NAMESPACE_KEY"
    and "\<And>ns l parts w p. SetLogLevel ns l \<in> set cs \<Longrightarrow> namespaceParts ns True = Inr (parts, w)
           \<Longrightarrow> p \<in> set parts \<Longrightarrow> P p"
  shows "\<forall>n \<in> set (heap (run cs s)). P (namespacePart n)"
  using assms
proof (induction cs arbitrary: s)
  case Nil then show ?case by simp
next
  case (Cons c cs)
  have "\<forall>n \<in> set (heap (snd (exec c s))). P (namespacePart n)"
  proof (cases c)
    case (SetLogLevel ns l)
    have "\<forall>n \<in> set (heap (snd (setLogLevel ns l s))). P (namespacePart n)"
      using Cons.prems(1) Cons.prems(3)[of ns l] SetLogLevel by (intro setLogLevel_parts) auto
    then show ?thesis using SetLogLevel by (simp add: snd_exec del: exec.simps)
  next
    case (ShouldLog l ns)
    then show ?thesis using Cons.prems(1) by (simp add: snd_exec del: exec.simps)
  next
    case Reset
    then show ?thesis using Cons.prems(1,2) by (simp add: reset_def alloc_def createRootNode_def)
  qed
  moreover have "run (c # cs) s = run cs (snd (exec c s))" by simp
  ultimately show ?case using Cons.IH[of "snd (exec c s)"] Cons.prems(2,3)
    by (metis list.set_intros(2))
qed

subsection \<open>Looking up what was set\<close>

lemma findNearestLoop_hd:
  "findNearestLoop h cur (cur # vis) ps = (nodes, remaining) \<Longrightarrow> nodes = hd nodes # tl nodes"
  using findNearestLoop_append[of h cur "cur # vis" ps] by auto

text \<open>The walk over the new nodes, from the node the loop started at.\<close>

lemma addRemaining_walk:
  assumes "cur < length h" "\<not> has (children (h ! cur)) p"
  shows "\<exists>nodes. findNearestLoop (snd (addRemaining w l cur (p # ps) h)) cur (cur # vis) (p # ps)
                    = (nodes, []) \<and>
                 hd nodes < length (snd (addRemaining w l cur (p # ps) h)) \<and>
                 snd (addRemaining w l cur (p # ps) h) ! hd nodes = newChild (last (p # ps)) True w l"
  using assms
proof (induction ps arbitrary: cur h p vis)
  case Nil
  let ?h1 = "setChild cur p (length h) (h @ [newChild p True w l])"
  have h': "snd (addRemaining w l cur [p] h) = ?h1"
    using Nil.prems(2) by (simp add: alloc_def)
  have "map_of (children (?h1 ! cur)) p = Some (length h)"
    using Nil.prems(1) by (simp add: setChild_def nth_append update_conv')
  then have "findNearestLoop ?h1 cur (cur # vis) [p] = (length h # cur # vis, [])" by simp
  moreover have "?h1 ! length h = newChild p True w l" using Nil.prems(1) by (rule setChild_new)
  ultimately show ?case unfolding h' by simp
next
  case (Cons q ps)
  let ?h1 = "setChild cur p (length h) (h @ [newChild p False w l])"
  let ?h' = "snd (addRemaining w l cur (p # q # ps) h)"
  have eq: "?h' = snd (addRemaining w l (length h) (q # ps) ?h1)"
    using addRemaining_Cons[OF Cons.prems(2), of w l "q # ps"] by simp
  have new: "?h1 ! length h = newChild p False w l" using Cons.prems(1) by (rule setChild_new)
  have c: "length h < length ?h1" by simp
  have n: "\<not> has (children (?h1 ! length h)) q" unfolding new by (simp add: has_def)
  from Cons.IH[OF c n, of "cur # vis"] obtain nodes where
    w: "findNearestLoop ?h' (length h) (length h # cur # vis) (q # ps) = (nodes, [])"
    and v: "hd nodes < length ?h'" and lv: "?h' ! hd nodes = newChild (last (q # ps)) True w l"
    unfolding eq by blast
  have "?h' ! cur = (h ! cur)\<lparr>children := AList.update p (length h) (children (h ! cur))\<rparr>"
    using Cons.prems by (rule addRemaining_current)
  then have "map_of (children (?h' ! cur)) p = Some (length h)" by (simp add: update_conv')
  then have "findNearestLoop ?h' cur (cur # vis) (p # q # ps) = (nodes, [])" using w by simp
  then show ?case using v lv by simp
qed

text \<open>The walk up to the node the loop started at is the walk before the loop.\<close>

lemma findNearestLoop_prefix:
  assumes "refsValid h" "cur0 < length h"
    and "findNearestLoop h cur0 (cur0 # vis0) parts = (nodes, p # rest)"
    and "\<And>a. a < length h \<Longrightarrow> a \<noteq> hd nodes \<Longrightarrow> children (h' ! a) = children (h ! a)"
    and "map_of (children (h' ! hd nodes)) = (map_of (children (h ! hd nodes)))(p \<mapsto> c)"
  shows "findNearestLoop h' cur0 (cur0 # vis0) parts = findNearestLoop h' (hd nodes) nodes (p # rest)"
  using assms(2,3)
proof (induction parts arbitrary: cur0 vis0)
  case Nil then show ?case by simp
next
  case (Cons q qs)
  have miss: "map_of (children (h ! hd nodes)) p = None"
    using Cons.prems(2) by (rule findNearestLoop_missing)
  show ?case
  proof (cases "map_of (children (h ! cur0)) q")
    case None
    then have "nodes = cur0 # vis0" "p # rest = q # qs" using Cons.prems(2) by simp_all
    then show ?thesis by simp
  next
    case (Some n)
    have n: "n < length h" using map_of_valid[OF assms(1) Cons.prems(1) Some] .
    have walk: "findNearestLoop h n (n # cur0 # vis0) qs = (nodes, p # rest)"
      using Cons.prems(2) Some by simp
    have "map_of (children (h' ! cur0)) q = Some n"
    proof (cases "cur0 = hd nodes")
      case True
      then have "q \<noteq> p" using miss Some by auto
      then show ?thesis using True Some assms(5) by simp
    next
      case False
      then show ?thesis using assms(4)[OF Cons.prems(1)] Some by simp
    qed
    then have "findNearestLoop h' cur0 (cur0 # vis0) (q # qs) = findNearestLoop h' n (n # cur0 # vis0) qs"
      by simp
    then show ?thesis using Cons.IH[OF n walk] by simp
  qed
qed

lemma findNearestLoop_children_cong:
  "(\<And>a. children (h' ! a) = children (h ! a)) \<Longrightarrow>
   findNearestLoop h' cur vis ps = findNearestLoop h cur vis ps"
  by (induction ps arbitrary: cur vis) (simp_all split: option.splits)

lemma children_setNodeLevel [simp]: "children (setNodeLevel n l h ! a) = children (h ! a)"
  by (cases "n < length h"; cases "a = n") (simp_all add: setNodeLevel_def list_update_beyond)

lemma children_setCascadingLevel [simp]: "children (setCascadingLevel n l h ! a) = children (h ! a)"
  by (cases "n < length h"; cases "a = n") (simp_all add: setCascadingLevel_def list_update_beyond)

text \<open>
  After \<^verbatim>\<open>setLogLevel\<close> on a namespace that parses, the walk for the same parts consumes
  all of them and ends at a node that holds the level in the slot the call selected.
\<close>



lemma setLogLevel_then_find:
  assumes wf: "wellFormed s" and parse: "namespaceParts ns True = Inr (parts, w)"
  shows "\<exists>nodes. findNearestNode (snd (setLogLevel ns l s)) parts = (nodes, []) \<and>
                 hd nodes < length (heap (snd (setLogLevel ns l s))) \<and>
                 levelSlot w (heap (snd (setLogLevel ns l s)) ! hd nodes) = Some l"
proof -
  let ?s' = "snd (setLogLevel ns l s)"
  obtain nodes remaining where f: "findNearestNode s parts = (nodes, remaining)"
    by (cases "findNearestNode s parts")
  have valid: "hd nodes < length (heap s)"
    using findNearestNode_valid[OF wf f] findNearestNode_nodes(1)[OF f] by simp
  have root: "namespaces ?s' = namespaces s" by (rule namespaces_setLogLevel)
  show ?thesis
  proof (cases remaining)
    case Nil
    have h': "heap ?s' = (if w then setCascadingLevel (hd nodes) l (heap s)
                          else setNodeLevel (hd nodes) l (heap s))"
      using parse f Nil by (simp add: heap_setLogLevel)
    have "findNearestLoop (heap ?s') (namespaces s) [namespaces s] parts
            = findNearestLoop (heap s) (namespaces s) [namespaces s] parts"
      by (rule findNearestLoop_children_cong) (simp add: h')
    then have "findNearestNode ?s' parts = (nodes, [])"
      using f Nil by (simp add: findNearestNode_def root)
    moreover have "levelSlot w (heap ?s' ! hd nodes) = Some l"
      using valid by (simp add: h' levelSlot_def setCascadingLevel_def setNodeLevel_def)
    moreover have "hd nodes < length (heap ?s')" using valid by (simp add: h')
    ultimately show ?thesis by blast
  next
    case (Cons p rest)
    let ?h' = "snd (addRemaining w l (hd nodes) (p # rest) (heap s))"
    have h': "heap ?s' = ?h'" using parse f Cons by (simp add: heap_setLogLevel)
    have f0: "findNearestLoop (heap s) (namespaces s) [namespaces s] parts = (nodes, p # rest)"
      using f Cons by (simp add: findNearestNode_def)
    have miss: "\<not> has (children (heap s ! hd nodes)) p"
      using findNearestLoop_missing[OF f0] by (simp add: has_def)
    have nodes: "nodes = hd nodes # tl nodes" using f0 by (rule findNearestLoop_hd)
    have "findNearestLoop ?h' (namespaces s) [namespaces s] parts
            = findNearestLoop ?h' (hd nodes) nodes (p # rest)"
    proof (rule findNearestLoop_prefix[OF _ _ f0])
      show "refsValid (heap s)" "namespaces s < length (heap s)"
        using wf by (simp_all add: wellFormed_def)
      show "children (?h' ! a) = children (heap s ! a)" if "a < length (heap s)" "a \<noteq> hd nodes" for a
        using that by (simp add: addRemaining_other del: addRemaining.simps)
      show "map_of (children (?h' ! hd nodes))
              = (map_of (children (heap s ! hd nodes)))(p \<mapsto> length (heap s))"
        by (simp add: addRemaining_current[OF valid miss] update_conv' del: addRemaining.simps)
    qed
    moreover from addRemaining_walk[OF valid miss, of w l rest "tl nodes"] obtain nodes' where
      "findNearestLoop ?h' (hd nodes) (hd nodes # tl nodes) (p # rest) = (nodes', [])"
      "hd nodes' < length ?h'" "?h' ! hd nodes' = newChild (last (p # rest)) True w l"
      by blast
    ultimately have "findNearestNode ?s' parts = (nodes', [])"
      "hd nodes' < length (heap ?s')" "levelSlot w (heap ?s' ! hd nodes') = Some l"
      using nodes by (simp_all add: findNearestNode_def root h' levelSlot_def newChild_levels
          del: addRemaining.simps)
    then show ?thesis by blast
  qed
qed


subsection \<open>The nodes at a path\<close>

lemma filter_key:
  "distinct (map fst al) \<Longrightarrow> map_of al k = Some v \<Longrightarrow> filter (\<lambda>kc. fst kc = k) al = [(k, v)]"
proof (induction al)
  case Nil then show ?case by simp
next
  case (Cons x al)
  show ?case
  proof (cases "fst x = k")
    case True
    then have "x = (k, v)" using Cons.prems(2) by (cases x) simp
    moreover have "k \<notin> fst ` set al" using Cons.prems(1) True by auto
    then have "filter (\<lambda>kc. fst kc = k) al = []"
      unfolding filter_empty_conv by (metis imageI)
    ultimately show ?thesis by simp
  next
    case False
    then show ?thesis using Cons by (cases x) auto
  qed
qed

lemma nodesAt_walk:
  assumes "refsValid h" "keysDistinct h"
  shows "cur < length h \<Longrightarrow> findNearestLoop h cur (cur # vis) ps = (nodes, []) \<Longrightarrow>
         nodesAt h cur ps = [hd nodes]"
proof (induction ps arbitrary: cur vis)
  case Nil then show ?case by auto
next
  case (Cons q qs)
  obtain n where n: "map_of (children (h ! cur)) q = Some n"
    using Cons.prems(2) by (cases "map_of (children (h ! cur)) q") simp_all
  have v: "n < length h" using map_of_valid[OF assms(1) Cons.prems(1) n] .
  have "findNearestLoop h n (n # cur # vis) qs = (nodes, [])" using Cons.prems(2) n by simp
  then have "nodesAt h n qs = [hd nodes]" using Cons.IH[OF v] by blast
  moreover have "filter (\<lambda>kc. fst kc = q) (children (h ! cur)) = [(q, n)]"
    using keysDistinct_nth[OF assms(2) Cons.prems(1)] n by (rule filter_key)
  ultimately show ?case by simp
qed

lemma nodesAt_children_cong:
  "(\<And>a. children (h' ! a) = children (h ! a)) \<Longrightarrow> nodesAt h' n ps = nodesAt h n ps"
  by (induction ps arbitrary: n) simp_all

lemma namespaceParts_a_b: "namespaceParts (Str ''a:b'') allowWildcard = Inr ([''a'', ''b''], False)"
  by (simp add: parse_defs)

lemma setLogLevel_then_shouldLog:
  assumes wf: "wellFormed s"
    and set: "namespaceParts ns True = Inr (parts, False)"
    and get: "namespaceParts ns False = Inr (parts, False)"
  shows "shouldLog (snd (setLogLevel ns l s)) checkLevel ns = Inr (levelLe checkLevel l)"
proof -
  from setLogLevel_then_find[OF wf set, of l] obtain nodes where
    f: "findNearestNode (snd (setLogLevel ns l s)) parts = (nodes, [])"
    and lv: "nodeLevel (heap (snd (setLogLevel ns l s)) ! hd nodes) = Some l"
    unfolding levelSlot_def by auto
  have "nodes \<noteq> []" using f by (rule findNearestNode_nodes(1))
  then show ?thesis using lv by (simp add: shouldLog_def get f nullish_def)
qed

subsection \<open>The states of the first three claims\<close>

text \<open>
  The calls of the first three claims on the fresh tree, for any levels: how their
  namespaces parse and the stores they leave.
\<close>

lemmas eval_defs = setLogLevel_def shouldLog_def findNearestNode_def initial_def alloc_def
  createRootNode_def has_def setChild_def setNodeLevel_def setCascadingLevel_def newChild_def
  nullish_def DEFAULT_ROOT_LEVEL_def ROOT_NAMESPACE_KEY_def

lemma parse_a_star: "namespaceParts (Str ''a:*'') True = Inr ([''a''], True)"
  by (simp add: parse_defs)

lemma parse_a: "namespaceParts (Str ''a'') b = Inr ([''a''], False)"
  by (simp add: parse_defs)

lemma parse_b: "namespaceParts (Str ''b'') b = Inr ([''b''], False)"
  by (simp add: parse_defs)

lemma parse_a_c: "namespaceParts (Str ''a:c'') b = Inr ([''a'', ''c''], False)"
  by (simp add: parse_defs)

lemma parse_a_b_c: "namespaceParts (Str ''a:b:c'') b = Inr ([''a'', ''b'', ''c''], False)"
  by (simp add: parse_defs)

lemma parse_root_star: "namespaceParts (Str ''$:*'') True = Inr ([], True)"
  by (simp add: parse_defs)

lemma state_a_b:
  "setLogLevel (Str ''a:b'') level initial =
     (Inr (),
      \<lparr>heap =
         [\<lparr>namespacePart = ''$'', children = [(''a'', 1)], nodeLevel = None,
            cascadingLevel = Some INFO\<rparr>,
          \<lparr>namespacePart = ''a'', children = [(''b'', 2)], nodeLevel = None,
            cascadingLevel = None\<rparr>,
          \<lparr>namespacePart = ''b'', children = [], nodeLevel = Some level,
            cascadingLevel = None\<rparr>],
       namespaces = 0\<rparr>)"
  by (simp add: namespaceParts_a_b eval_defs)

lemma state_root_a_b:
  "run [SetLogLevel (Str ''$:*'') rootLevel, SetLogLevel (Str ''a:b'') level] initial =
      \<lparr>heap =
         [\<lparr>namespacePart = ''$'', children = [(''a'', 1)], nodeLevel = None,
            cascadingLevel = Some rootLevel\<rparr>,
          \<lparr>namespacePart = ''a'', children = [(''b'', 2)], nodeLevel = None,
            cascadingLevel = None\<rparr>,
          \<lparr>namespacePart = ''b'', children = [], nodeLevel = Some level,
            cascadingLevel = None\<rparr>],
       namespaces = 0\<rparr>"
  by (simp add: namespaceParts_a_b parse_root_star eval_defs)

lemma state_a_star:
  "setLogLevel (Str ''a:*'') level initial =
     (Inr (),
      \<lparr>heap =
         [\<lparr>namespacePart = ''$'', children = [(''a'', 1)], nodeLevel = None,
            cascadingLevel = Some INFO\<rparr>,
          \<lparr>namespacePart = ''a'', children = [], nodeLevel = None,
            cascadingLevel = Some level\<rparr>],
       namespaces = 0\<rparr>)"
  by (simp add: parse_a_star eval_defs)

lemma state_a_star_a_b:
  "setLogLevel (Str ''a:b'') l2 (snd (setLogLevel (Str ''a:*'') l1 initial)) =
     (Inr (),
      \<lparr>heap =
         [\<lparr>namespacePart = ''$'', children = [(''a'', 1)], nodeLevel = None,
            cascadingLevel = Some INFO\<rparr>,
          \<lparr>namespacePart = ''a'', children = [(''b'', 2)], nodeLevel = None,
            cascadingLevel = Some l1\<rparr>,
          \<lparr>namespacePart = ''b'', children = [], nodeLevel = Some l2,
            cascadingLevel = None\<rparr>],
       namespaces = 0\<rparr>)"
  by (simp add: state_a_star) (simp add: namespaceParts_a_b eval_defs)

section \<open>The claims\<close>

text \<open>
  C1. Exact levels do not inherit. On a fresh tree \<^verbatim>\<open>setLogLevel("a:b", DEBUG)\<close>
  succeeds; afterwards \<^verbatim>\<open>shouldLog(DEBUG, "a:b")\<close> is true and
  \<^verbatim>\<open>shouldLog(DEBUG, "a:b:c")\<close> is false: the walk for \<^verbatim>\<open>"a:b:c"\<close> stops at the node of
  \<^verbatim>\<open>"a:b"\<close> with \<^verbatim>\<open>"c"\<close> remaining, and of the nodes it visited only the root has a
  cascading level, the default INFO. For any level set on \<^verbatim>\<open>"a:b"\<close> and any level asked
  about, \<^verbatim>\<open>"a:b"\<close> is answered by comparing with the level set, and \<^verbatim>\<open>"a:b:c"\<close> and
  \<^verbatim>\<open>"a"\<close> by comparing with INFO, whatever was set on \<^verbatim>\<open>"a:b"\<close>. When the root's
  cascading level was set first, \<^verbatim>\<open>"a:b:c"\<close> is answered by comparing with that level.
\<close>

theorem exact_level_not_inherited:
  "fst (setLogLevel (Str ''a:b'') DEBUG initial) = Inr () \<and>
   shouldLog (snd (setLogLevel (Str ''a:b'') DEBUG initial)) DEBUG (Str ''a:b'') = Inr True \<and>
   shouldLog (snd (setLogLevel (Str ''a:b'') DEBUG initial)) DEBUG (Str ''a:b:c'') = Inr False \<and>
   findNearestNode (snd (setLogLevel (Str ''a:b'') DEBUG initial)) [''a'', ''b'', ''c'']
     = ([2, 1, 0], [''c'']) \<and>
   map (\<lambda>n. cascadingLevel (heap (snd (setLogLevel (Str ''a:b'') DEBUG initial)) ! n)) [2, 1, 0]
     = [None, None, Some INFO] \<and>
   fst (setLogLevel (Str ''a:b'') level initial) = Inr () \<and>
   shouldLog (snd (setLogLevel (Str ''a:b'') level initial)) checkLevel (Str ''a:b'')
     = Inr (levelLe checkLevel level) \<and>
   shouldLog (snd (setLogLevel (Str ''a:b'') level initial)) checkLevel (Str ''a:b:c'')
     = Inr (levelLe checkLevel INFO) \<and>
   shouldLog (snd (setLogLevel (Str ''a:b'') level initial)) checkLevel (Str ''a'')
     = Inr (levelLe checkLevel INFO) \<and>
   shouldLog (run [SetLogLevel (Str ''$:*'') rootLevel, SetLogLevel (Str ''a:b'') level] initial)
     checkLevel (Str ''a:b:c'') = Inr (levelLe checkLevel rootLevel) \<and>
   shouldLog (run [SetLogLevel (Str ''$:*'') rootLevel, SetLogLevel (Str ''a:b'') level] initial)
     checkLevel (Str ''a:b'') = Inr (levelLe checkLevel level)"
proof -
  have fixed:
    "fst (setLogLevel (Str ''a:b'') DEBUG initial) = Inr () \<and>
     shouldLog (snd (setLogLevel (Str ''a:b'') DEBUG initial)) DEBUG (Str ''a:b'') = Inr True \<and>
     shouldLog (snd (setLogLevel (Str ''a:b'') DEBUG initial)) DEBUG (Str ''a:b:c'') = Inr False \<and>
     findNearestNode (snd (setLogLevel (Str ''a:b'') DEBUG initial)) [''a'', ''b'', ''c'']
       = ([2, 1, 0], [''c'']) \<and>
     map (\<lambda>n. cascadingLevel (heap (snd (setLogLevel (Str ''a:b'') DEBUG initial)) ! n)) [2, 1, 0]
       = [None, None, Some INFO]"
    by code_simp
  have ok: "fst (setLogLevel (Str ''a:b'') level initial) = Inr ()"
    by (simp add: state_a_b)
  have exact: "shouldLog (snd (setLogLevel (Str ''a:b'') level initial)) checkLevel (Str ''a:b'')
                 = Inr (levelLe checkLevel level)"
    by (simp add: state_a_b shouldLog_def namespaceParts_a_b findNearestNode_def nullish_def)
  have below: "shouldLog (snd (setLogLevel (Str ''a:b'') level initial)) checkLevel (Str ''a:b:c'')
                 = Inr (levelLe checkLevel INFO)"
    by (simp add: state_a_b shouldLog_def parse_a_b_c findNearestNode_def nullish_def)
  have above: "shouldLog (snd (setLogLevel (Str ''a:b'') level initial)) checkLevel (Str ''a'')
                 = Inr (levelLe checkLevel INFO)"
    by (simp add: state_a_b shouldLog_def parse_a findNearestNode_def nullish_def)
  have root: "shouldLog (run [SetLogLevel (Str ''$:*'') rootLevel, SetLogLevel (Str ''a:b'') level] initial)
                checkLevel (Str ''a:b:c'') = Inr (levelLe checkLevel rootLevel)"
    unfolding state_root_a_b
    by (simp add: shouldLog_def parse_a_b_c findNearestNode_def nullish_def)
  have root': "shouldLog (run [SetLogLevel (Str ''$:*'') rootLevel, SetLogLevel (Str ''a:b'') level] initial)
                checkLevel (Str ''a:b'') = Inr (levelLe checkLevel level)"
    unfolding state_root_a_b
    by (simp add: shouldLog_def namespaceParts_a_b findNearestNode_def nullish_def)
  show ?thesis using fixed ok exact below above root root' by blast
qed

text \<open>
  C2. Cascading levels inherit arbitrarily deep. On a fresh tree
  \<^verbatim>\<open>setLogLevel("a:*", DEBUG)\<close> succeeds, and afterwards \<^verbatim>\<open>shouldLog(DEBUG, "a")\<close> and
  \<^verbatim>\<open>shouldLog(DEBUG, "a:b:c")\<close> are true. For any level in place of DEBUG the call sets
  the cascading level of the node of \<^verbatim>\<open>"a"\<close> and leaves its exact level null, and
  \<^verbatim>\<open>shouldLog\<close> answers \<^verbatim>\<open>"a"\<close>, \<^verbatim>\<open>"a:b:c"\<close> and every namespace whose parts start with
  \<^verbatim>\<open>a\<close>, at any depth, by comparing the level asked about with the level set. A
  namespace outside \<^verbatim>\<open>a\<close> and the root are still answered from INFO.
\<close>

theorem cascading_level_inherited:
  "fst (setLogLevel (Str ''a:*'') DEBUG initial) = Inr () \<and>
   shouldLog (snd (setLogLevel (Str ''a:*'') DEBUG initial)) DEBUG (Str ''a'') = Inr True \<and>
   shouldLog (snd (setLogLevel (Str ''a:*'') DEBUG initial)) DEBUG (Str ''a:b:c'') = Inr True \<and>
   fst (setLogLevel (Str ''a:*'') level initial) = Inr () \<and>
   findNearestNode (snd (setLogLevel (Str ''a:*'') level initial)) [''a''] = ([1, 0], []) \<and>
   cascadingLevel (heap (snd (setLogLevel (Str ''a:*'') level initial)) ! 1) = Some level \<and>
   nodeLevel (heap (snd (setLogLevel (Str ''a:*'') level initial)) ! 1) = None \<and>
   shouldLog (snd (setLogLevel (Str ''a:*'') level initial)) checkLevel (Str ''a'')
     = Inr (levelLe checkLevel level) \<and>
   shouldLog (snd (setLogLevel (Str ''a:*'') level initial)) checkLevel (Str ''a:b:c'')
     = Inr (levelLe checkLevel level) \<and>
   (\<forall>ns rest w. namespaceParts (Str ns) False = Inr (''a'' # rest, w) \<longrightarrow>
      shouldLog (snd (setLogLevel (Str ''a:*'') level initial)) checkLevel (Str ns)
        = Inr (levelLe checkLevel level)) \<and>
   shouldLog (snd (setLogLevel (Str ''a:*'') level initial)) checkLevel (Str ''b'')
     = Inr (levelLe checkLevel INFO) \<and>
   shouldLog (snd (setLogLevel (Str ''a:*'') level initial)) checkLevel RootNamespace
     = Inr (levelLe checkLevel INFO)"
proof -
  let ?s = "snd (setLogLevel (Str ''a:*'') level initial)"
  have fixed:
    "fst (setLogLevel (Str ''a:*'') DEBUG initial) = Inr () \<and>
     shouldLog (snd (setLogLevel (Str ''a:*'') DEBUG initial)) DEBUG (Str ''a'') = Inr True \<and>
     shouldLog (snd (setLogLevel (Str ''a:*'') DEBUG initial)) DEBUG (Str ''a:b:c'') = Inr True"
    by code_simp
  have ok: "fst (setLogLevel (Str ''a:*'') level initial) = Inr ()"
    by (simp add: state_a_star)
  have node: "findNearestNode ?s [''a''] = ([1, 0], [])"
    "cascadingLevel (heap ?s ! 1) = Some level" "nodeLevel (heap ?s ! 1) = None"
    by (simp_all add: state_a_star findNearestNode_def)
  have deep: "shouldLog ?s checkLevel (Str ns) = Inr (levelLe checkLevel level)"
    if p: "namespaceParts (Str ns) False = Inr (''a'' # rest, w)" for ns rest w
  proof -
    have f: "findNearestNode ?s (''a'' # rest) = ([1, 0], rest)"
      by (cases rest) (simp_all add: state_a_star findNearestNode_def)
    show ?thesis
      by (simp add: shouldLog_def p f) (simp add: state_a_star nullish_def)
  qed
  have a: "shouldLog ?s checkLevel (Str ''a'') = Inr (levelLe checkLevel level)"
    using parse_a by (rule deep)
  have abc: "shouldLog ?s checkLevel (Str ''a:b:c'') = Inr (levelLe checkLevel level)"
    using parse_a_b_c by (rule deep)
  have b: "shouldLog ?s checkLevel (Str ''b'') = Inr (levelLe checkLevel INFO)"
    by (simp add: state_a_star shouldLog_def parse_b findNearestNode_def nullish_def)
  have r: "shouldLog ?s checkLevel RootNamespace = Inr (levelLe checkLevel INFO)"
    by (simp add: state_a_star shouldLog_def namespaceParts_def findNearestNode_def nullish_def)
  show ?thesis using fixed ok node deep a abc b r by blast
qed

theorem cascading_level_inherited_witness:
  "namespaceParts (Str ''a:v:w:x:y:z'') False = Inr ([''a'', ''v'', ''w'', ''x'', ''y'', ''z''], False) \<and>
   shouldLog (snd (setLogLevel (Str ''a:*'') ERROR initial)) WARN (Str ''a:v:w:x:y:z'') = Inr False \<and>
   shouldLog (snd (setLogLevel (Str ''a:*'') DEBUG initial)) DEBUG (Str ''a:v:w:x:y:z'') = Inr True"
proof -
  have p: "namespaceParts (Str ''a:v:w:x:y:z'') False
             = Inr (''a'' # [''v'', ''w'', ''x'', ''y'', ''z''], False)"
    by code_simp
  have "shouldLog (snd (setLogLevel (Str ''a:*'') ERROR initial)) WARN (Str ''a:v:w:x:y:z'')
          = Inr (levelLe WARN ERROR)"
    using cascading_level_inherited[where level = ERROR and checkLevel = WARN] p by blast
  moreover have "shouldLog (snd (setLogLevel (Str ''a:*'') DEBUG initial)) DEBUG (Str ''a:v:w:x:y:z'')
          = Inr (levelLe DEBUG DEBUG)"
    using cascading_level_inherited[where level = DEBUG and checkLevel = DEBUG] p by blast
  ultimately show ?thesis using p by (simp add: levelLe_def)
qed

text \<open>
  C3. Override precedence. On a fresh tree, after \<^verbatim>\<open>setLogLevel("a:*", ERROR)\<close> and then
  \<^verbatim>\<open>setLogLevel("a:b", DEBUG)\<close>, \<^verbatim>\<open>shouldLog(DEBUG, "a:b")\<close> is true and
  \<^verbatim>\<open>shouldLog(DEBUG, "a:c")\<close> is false: the walk for \<^verbatim>\<open>"a:c"\<close> stops at the node of \<^verbatim>\<open>"a"\<close>,
  whose cascading level is ERROR, and \<^verbatim>\<open>"a:c"\<close> is answered by comparing the level asked
  about with ERROR. For any levels \<open>l1\<close> on \<^verbatim>\<open>"a:*"\<close> and \<open>l2\<close> on \<^verbatim>\<open>"a:b"\<close>: \<^verbatim>\<open>"a:b"\<close> is
  answered from \<open>l2\<close>; \<^verbatim>\<open>"a:c"\<close>, \<^verbatim>\<open>"a"\<close> and \<^verbatim>\<open>"a:b:c"\<close> from \<open>l1\<close>; \<^verbatim>\<open>"b"\<close> from INFO.
\<close>

theorem override_precedence:
  "fst (setLogLevel (Str ''a:*'') ERROR initial) = Inr () \<and>
   fst (setLogLevel (Str ''a:b'') DEBUG (snd (setLogLevel (Str ''a:*'') ERROR initial))) = Inr () \<and>
   shouldLog (snd (setLogLevel (Str ''a:b'') DEBUG (snd (setLogLevel (Str ''a:*'') ERROR initial))))
     DEBUG (Str ''a:b'') = Inr True \<and>
   shouldLog (snd (setLogLevel (Str ''a:b'') DEBUG (snd (setLogLevel (Str ''a:*'') ERROR initial))))
     DEBUG (Str ''a:c'') = Inr False \<and>
   findNearestNode (snd (setLogLevel (Str ''a:b'') DEBUG (snd (setLogLevel (Str ''a:*'') ERROR initial))))
     [''a'', ''c''] = ([1, 0], [''c'']) \<and>
   cascadingLevel
     (heap (snd (setLogLevel (Str ''a:b'') DEBUG (snd (setLogLevel (Str ''a:*'') ERROR initial)))) ! 1)
     = Some ERROR \<and>
   shouldLog (snd (setLogLevel (Str ''a:b'') DEBUG (snd (setLogLevel (Str ''a:*'') ERROR initial))))
     checkLevel (Str ''a:c'') = Inr (levelLe checkLevel ERROR) \<and>
   fst (setLogLevel (Str ''a:*'') l1 initial) = Inr () \<and>
   fst (setLogLevel (Str ''a:b'') l2 (snd (setLogLevel (Str ''a:*'') l1 initial))) = Inr () \<and>
   shouldLog (snd (setLogLevel (Str ''a:b'') l2 (snd (setLogLevel (Str ''a:*'') l1 initial))))
     checkLevel (Str ''a:b'') = Inr (levelLe checkLevel l2) \<and>
   shouldLog (snd (setLogLevel (Str ''a:b'') l2 (snd (setLogLevel (Str ''a:*'') l1 initial))))
     checkLevel (Str ''a:c'') = Inr (levelLe checkLevel l1) \<and>
   shouldLog (snd (setLogLevel (Str ''a:b'') l2 (snd (setLogLevel (Str ''a:*'') l1 initial))))
     checkLevel (Str ''a'') = Inr (levelLe checkLevel l1) \<and>
   shouldLog (snd (setLogLevel (Str ''a:b'') l2 (snd (setLogLevel (Str ''a:*'') l1 initial))))
     checkLevel (Str ''a:b:c'') = Inr (levelLe checkLevel l1) \<and>
   shouldLog (snd (setLogLevel (Str ''a:b'') l2 (snd (setLogLevel (Str ''a:*'') l1 initial))))
     checkLevel (Str ''b'') = Inr (levelLe checkLevel INFO)"
proof -
  have fixed:
    "fst (setLogLevel (Str ''a:*'') ERROR initial) = Inr () \<and>
     fst (setLogLevel (Str ''a:b'') DEBUG (snd (setLogLevel (Str ''a:*'') ERROR initial))) = Inr () \<and>
     shouldLog (snd (setLogLevel (Str ''a:b'') DEBUG (snd (setLogLevel (Str ''a:*'') ERROR initial))))
       DEBUG (Str ''a:b'') = Inr True \<and>
     shouldLog (snd (setLogLevel (Str ''a:b'') DEBUG (snd (setLogLevel (Str ''a:*'') ERROR initial))))
       DEBUG (Str ''a:c'') = Inr False \<and>
     findNearestNode (snd (setLogLevel (Str ''a:b'') DEBUG (snd (setLogLevel (Str ''a:*'') ERROR initial))))
       [''a'', ''c''] = ([1, 0], [''c'']) \<and>
     cascadingLevel
       (heap (snd (setLogLevel (Str ''a:b'') DEBUG (snd (setLogLevel (Str ''a:*'') ERROR initial)))) ! 1)
       = Some ERROR"
    by code_simp
  let ?s = "\<lambda>l1 l2. snd (setLogLevel (Str ''a:b'') l2 (snd (setLogLevel (Str ''a:*'') l1 initial)))"
  have ok1: "fst (setLogLevel (Str ''a:*'') l1 initial) = Inr ()"
    by (simp add: state_a_star)
  have ok2: "fst (setLogLevel (Str ''a:b'') l2 (snd (setLogLevel (Str ''a:*'') l1 initial))) = Inr ()"
    by (simp add: state_a_star_a_b)
  have ab: "shouldLog (?s l1 l2) checkLevel (Str ''a:b'') = Inr (levelLe checkLevel l2)" for l1 l2
    by (simp add: state_a_star_a_b shouldLog_def namespaceParts_a_b findNearestNode_def nullish_def)
  have ac: "shouldLog (?s l1 l2) checkLevel (Str ''a:c'') = Inr (levelLe checkLevel l1)" for l1 l2
    by (simp add: state_a_star_a_b shouldLog_def parse_a_c findNearestNode_def nullish_def)
  have a: "shouldLog (?s l1 l2) checkLevel (Str ''a'') = Inr (levelLe checkLevel l1)" for l1 l2
    by (simp add: state_a_star_a_b shouldLog_def parse_a findNearestNode_def nullish_def)
  have abc: "shouldLog (?s l1 l2) checkLevel (Str ''a:b:c'') = Inr (levelLe checkLevel l1)" for l1 l2
    by (simp add: state_a_star_a_b shouldLog_def parse_a_b_c findNearestNode_def nullish_def)
  have b: "shouldLog (?s l1 l2) checkLevel (Str ''b'') = Inr (levelLe checkLevel INFO)" for l1 l2
    by (simp add: state_a_star_a_b shouldLog_def parse_b findNearestNode_def nullish_def)
  note general = ok1 ok2 ab[where ?l1.0 = l1 and ?l2.0 = l2] ac[where ?l1.0 = l1 and ?l2.0 = l2]
    a[where ?l1.0 = l1 and ?l2.0 = l2] abc[where ?l1.0 = l1 and ?l2.0 = l2] b[where ?l1.0 = l1 and ?l2.0 = l2]
  show ?thesis
    by (intro conjI fixed[THEN conjunct1] fixed[THEN conjunct2, THEN conjunct1]
        fixed[THEN conjunct2, THEN conjunct2, THEN conjunct1]
        fixed[THEN conjunct2, THEN conjunct2, THEN conjunct2, THEN conjunct1]
        fixed[THEN conjunct2, THEN conjunct2, THEN conjunct2, THEN conjunct2, THEN conjunct1]
        fixed[THEN conjunct2, THEN conjunct2, THEN conjunct2, THEN conjunct2, THEN conjunct2]
        ac[where ?l1.0 = ERROR and ?l2.0 = DEBUG] general)
qed

text \<open>
  C4. The root always has a cascading level. In every state reached from the initial
  one by a sequence of \<^verbatim>\<open>setLogLevel\<close>, \<^verbatim>\<open>shouldLog\<close> and \<^verbatim>\<open>reset\<close> calls, \<^verbatim>\<open>_namespaces\<close>
  refers to an object of the store whose \<^verbatim>\<open>cascadingLevel\<close> is not null, and so the scan of
  \<^verbatim>\<open>shouldLog\<close> over the nodes that \<^verbatim>\<open>findNearestNode\<close> returns never ends without a
  cascading level. The level is \<^verbatim>\<open>DEFAULT_ROOT_LEVEL\<close> at construction and after \<^verbatim>\<open>reset\<close>,
  and no call makes the \<^verbatim>\<open>cascadingLevel\<close> of an object null that was not null before.
\<close>

theorem root_cascadingLevel_never_null:
  "namespaces (run cs initial) < length (heap (run cs initial)) \<and>
   cascadingLevel (heap (run cs initial) ! namespaces (run cs initial)) \<noteq> None \<and>
   searchUp (heap (run cs initial)) checkLevel (fst (findNearestNode (run cs initial) parts))
     \<noteq> Inl NoCascadingLevel \<and>
   cascadingLevel (heap initial ! namespaces initial) = Some DEFAULT_ROOT_LEVEL \<and>
   cascadingLevel (heap (reset (run cs initial)) ! namespaces (reset (run cs initial)))
     = Some DEFAULT_ROOT_LEVEL \<and>
   (\<forall>r. r < length (heap (run cs initial)) \<and> cascadingLevel (heap (run cs initial) ! r) \<noteq> None
      \<longrightarrow> cascadingLevel (heap (snd (exec c (run cs initial))) ! r) \<noteq> None)"
proof -
  let ?s = "run cs initial"
  have wf: "wellFormed ?s" and rc: "rootCascades ?s" by (rule reachable_invariant)+
  have 6: "\<forall>r. r < length (heap ?s) \<and> cascadingLevel (heap ?s ! r) \<noteq> None
      \<longrightarrow> cascadingLevel (heap (snd (exec c ?s)) ! r) \<noteq> None"
    using exec_keeps_cascadingLevel by blast
  have 1: "namespaces ?s < length (heap ?s)" using wf by (simp add: wellFormed_def)
  have 2: "cascadingLevel (heap ?s ! namespaces ?s) \<noteq> None" using rc by (simp add: rootCascades_def)
  have "namespaces ?s \<in> set (fst (findNearestNode ?s parts))"
    by (rule findNearestNode_nodes(2)[of ?s parts _ "snd (findNearestNode ?s parts)"]) simp
  from searchUp_finds[OF this 2]
  have 3: "searchUp (heap ?s) checkLevel (fst (findNearestNode ?s parts)) \<noteq> Inl NoCascadingLevel"
    by (metis Inl_Inr_False)
  have 4: "cascadingLevel (heap initial ! namespaces initial) = Some DEFAULT_ROOT_LEVEL"
    by (simp add: initial_def alloc_def createRootNode_def)
  have 5: "cascadingLevel (heap (reset ?s) ! namespaces (reset ?s)) = Some DEFAULT_ROOT_LEVEL"
    by (simp add: reset_def alloc_def createRootNode_def)
  show ?thesis using 1 2 3 4 5 6 by blast
qed

theorem root_cascadingLevel_never_null_witness:
  "cascadingLevel
     (heap (run [SetLogLevel (Str ''$:*'') ERROR, SetLogLevel (Str ''a:b'') DEBUG, Reset,
                 ShouldLog INFO (Str ''a''), SetLogLevel RootNamespace WARN] initial) !
      namespaces (run [SetLogLevel (Str ''$:*'') ERROR, SetLogLevel (Str ''a:b'') DEBUG, Reset,
                 ShouldLog INFO (Str ''a''), SetLogLevel RootNamespace WARN] initial))
   \<noteq> None"
  using root_cascadingLevel_never_null
    [of "[SetLogLevel (Str ''$:*'') ERROR, SetLogLevel (Str ''a:b'') DEBUG, Reset,
          ShouldLog INFO (Str ''a''), SetLogLevel RootNamespace WARN]"]
  by blast

text \<open>
  C5. The three invariant-violation throws are unreachable. Whatever calls came before,
  no call of \<^verbatim>\<open>setLogLevel\<close>, \<^verbatim>\<open>shouldLog\<close> or \<^verbatim>\<open>reset\<close> ends in "No namespaces found
  invalid tree.", in "Invalid root namespace, no cascading level defined." or in
  "Namespace shoudn't exist in the tree.".
\<close>

theorem invariant_violations_unreachable:
  "fst (exec c (run cs initial)) \<noteq> Inl NoNamespacesFound \<and>
   fst (exec c (run cs initial)) \<noteq> Inl NoCascadingLevel \<and>
   fst (exec c (run cs initial)) \<noteq> Inl NamespaceExists"
proof -
  let ?s = "run cs initial"
  have inv: "wellFormed ?s" "rootCascades ?s" by (rule reachable_invariant)+
  show ?thesis
  proof (cases c)
    case (SetLogLevel ns l)
    show ?thesis
    proof (cases "namespaceParts ns True")
      case (Inl e)
      then have "fst (setLogLevel ns l ?s) = Inl e" by (simp add: fst_setLogLevel)
      then have "fst (exec c ?s) = Inl e"
        using SetLogLevel by (simp add: fst_exec_SetLogLevel del: exec.simps)
      then show ?thesis using namespaceParts_errors[OF Inl] by auto
    next
      case (Inr x)
      have "fst (setLogLevel ns l ?s) = Inr ()" using setLogLevel_total[OF inv(1) Inr] .
      then have "fst (exec c ?s) = Inr Done"
        using SetLogLevel by (simp add: fst_exec_SetLogLevel del: exec.simps)
      then show ?thesis by simp
    qed
  next
    case (ShouldLog l ns)
    show ?thesis
    proof (cases "namespaceParts ns False")
      case (Inl e)
      then have "fst (exec c ?s) = Inl e" using ShouldLog by (simp add: shouldLog_def)
      then show ?thesis using namespaceParts_errors[OF Inl] by auto
    next
      case (Inr x)
      obtain b where "shouldLog ?s l ns = Inr b" using shouldLog_total[OF inv(2) Inr] by blast
      then show ?thesis using ShouldLog by simp
    qed
  next
    case Reset
    then show ?thesis by simp
  qed
qed

theorem invariant_violations_unreachable_witness:
  "fst (exec (SetLogLevel (Str ''a:b:c'') WARN)
          (run [SetLogLevel (Str ''a:b'') DEBUG, Reset, SetLogLevel (Str ''a:*'') ERROR] initial))
     \<noteq> Inl NamespaceExists"
  using invariant_violations_unreachable
    [of "SetLogLevel (Str ''a:b:c'') WARN"
        "[SetLogLevel (Str ''a:b'') DEBUG, Reset, SetLogLevel (Str ''a:*'') ERROR]"]
  by blast

text \<open>
  C6. Validation errors are raised and leave the tree as it was. In any state,
  \<^verbatim>\<open>setLogLevel("a:", X)\<close> throws the trailing-colon error, \<^verbatim>\<open>setLogLevel("a::b", X)\<close> the
  empty-segment error and \<^verbatim>\<open>shouldLog(X, "a:*")\<close> the wildcard error, and the state after
  each call is the state before it.
\<close>

theorem validation_errors_atomic:
  "exec (SetLogLevel (Str ''a:'') level) s = (Inl TrailingColon, s) \<and>
   exec (SetLogLevel (Str ''a::b'') level) s = (Inl EmptySegment, s) \<and>
   exec (ShouldLog level (Str ''a:*'')) s = (Inl WildcardNotAllowed, s)"
  by (simp add: setLogLevel_def shouldLog_def parse_defs)

theorem validation_errors_atomic_witness:
  "exec (SetLogLevel (Str ''a:'') DEBUG) (run [SetLogLevel (Str ''a:b'') WARN] initial)
     = (Inl TrailingColon, run [SetLogLevel (Str ''a:b'') WARN] initial)"
  using validation_errors_atomic [of DEBUG "run [SetLogLevel (Str ''a:b'') WARN] initial"]
  by blast

text \<open>
  C7, as stated, fails. \<^verbatim>\<open>namespaceParts\<close> looks for the wildcard token in the last
  part only, so \<^verbatim>\<open>setLogLevel("a:*:b", DEBUG)\<close> on a fresh tree succeeds and makes a node
  whose segment is \<^verbatim>\<open>"*"\<close>; the walk for the parts \<^verbatim>\<open>a\<close>, \<^verbatim>\<open>*\<close> ends at it.
\<close>

theorem wildcard_segment_counterexample:
  "fst (setLogLevel (Str ''a:*:b'') DEBUG initial) = Inr () \<and>
   findNearestNode (snd (setLogLevel (Str ''a:*:b'') DEBUG initial)) [''a'', ''*''] = ([2, 1, 0], []) \<and>
   namespacePart (heap (snd (setLogLevel (Str ''a:*:b'') DEBUG initial)) ! 2)
     = WILDCARD_NAMESPACE_TOKEN"
  by code_simp

text \<open>
  C7, amended. In every state reached from the initial one by a sequence of calls, no
  node object has a segment that contains the delimiter \<^verbatim>\<open>':'\<close>, and the nodes that a
  walk of the tree visits are node objects of the store. When no \<^verbatim>\<open>setLogLevel\<close> of the
  sequence has the wildcard token among its parsed parts, no segment is the wildcard
  token either.
\<close>

theorem segments_without_delimiter:
  "(\<forall>n \<in> set (heap (run cs initial)). CHR '':'' \<notin> set (namespacePart n)) \<and>
   (\<forall>node \<in> set (fst (findNearestNode (run cs initial) parts)).
      node < length (heap (run cs initial))) \<and>
   ((\<forall>c \<in> set cs. wildcardFree c) \<longrightarrow>
    (\<forall>n \<in> set (heap (run cs initial)). namespacePart n \<noteq> WILDCARD_NAMESPACE_TOKEN))"
proof -
  let ?s = "run cs initial"
  have 1: "\<forall>n \<in> set (heap ?s). CHR '':'' \<notin> set (namespacePart n)"
  proof (rule run_parts)
    show "\<forall>n \<in> set (heap initial). CHR '':'' \<notin> set (namespacePart n)"
      by (simp add: initial_def alloc_def createRootNode_def ROOT_NAMESPACE_KEY_def)
    show "CHR '':'' \<notin> set ROOT_NAMESPACE_KEY" by (simp add: ROOT_NAMESPACE_KEY_def)
  qed (rule namespaceParts_no_delimiter)
  have 2: "\<forall>node \<in> set (fst (findNearestNode ?s parts)). node < length (heap ?s)"
    by (rule findNearestNode_valid[OF reachable_invariant(1), of cs parts _ "snd (findNearestNode ?s parts)"])
       simp
  have 3: "\<forall>n \<in> set (heap ?s). namespacePart n \<noteq> WILDCARD_NAMESPACE_TOKEN"
    if wf: "\<forall>c \<in> set cs. wildcardFree c"
  proof (rule run_parts)
    show "\<forall>n \<in> set (heap initial). namespacePart n \<noteq> WILDCARD_NAMESPACE_TOKEN"
      by (simp add: initial_def alloc_def createRootNode_def ROOT_NAMESPACE_KEY_def
          WILDCARD_NAMESPACE_TOKEN_def)
    show "ROOT_NAMESPACE_KEY \<noteq> WILDCARD_NAMESPACE_TOKEN"
      by (simp add: ROOT_NAMESPACE_KEY_def WILDCARD_NAMESPACE_TOKEN_def)
  next
    fix ns l parts w p
    assume "SetLogLevel ns l \<in> set cs" "namespaceParts ns True = Inr (parts, w)" "p \<in> set parts"
    then show "p \<noteq> WILDCARD_NAMESPACE_TOKEN"
      using wf by (auto simp: wildcardFree_def)
  qed
  show ?thesis using 1 2 3 by blast
qed


theorem segments_without_delimiter_witness:
  "wildcardFree (SetLogLevel (Str ''a:b'') DEBUG) \<and>
   length (heap (run [SetLogLevel (Str ''a:b'') DEBUG] initial)) = 3 \<and>
   CHR '':'' \<notin> set (namespacePart (heap (run [SetLogLevel (Str ''a:b'') DEBUG] initial) ! 2)) \<and>
   namespacePart (heap (run [SetLogLevel (Str ''a:b'') DEBUG] initial) ! 2)
     \<noteq> WILDCARD_NAMESPACE_TOKEN"
proof -
  let ?cs = "[SetLogLevel (Str ''a:b'') DEBUG]"
  have w: "wildcardFree (SetLogLevel (Str ''a:b'') DEBUG)" by code_simp
  have len: "length (heap (run ?cs initial)) = 3" by code_simp
  then have mem: "heap (run ?cs initial) ! 2 \<in> set (heap (run ?cs initial))" by simp
  show ?thesis using segments_without_delimiter[of ?cs] w len mem by simp
qed

text \<open>
  C8. Setting a level twice changes nothing but the level. After any sequence of calls,
  \<^verbatim>\<open>setLogLevel("a:b", l1)\<close> followed by \<^verbatim>\<open>setLogLevel("a:b", l2)\<close> both succeed. The path
  \<^verbatim>\<open>a\<close>, \<^verbatim>\<open>b\<close> has exactly one node after the first call and the same single node after
  the second; the second call creates no object and changes the store only by writing
  \<open>l2\<close> into that node's \<^verbatim>\<open>nodeLevel\<close>, which is the level \<^verbatim>\<open>shouldLog\<close> then uses for
  \<^verbatim>\<open>"a:b"\<close>. With the same level twice, as in the claim's \<^verbatim>\<open>WARN\<close>, \<^verbatim>\<open>WARN\<close>, the second
  call leaves the state as it was.
\<close>

theorem repeated_setLogLevel_in_place:
  fixes cs :: "call list" and l1 l2 checkLevel :: LogLevel
  defines "s0 \<equiv> run cs initial"
  defines "s1 \<equiv> snd (setLogLevel (Str ''a:b'') l1 s0)"
  defines "s2 \<equiv> snd (setLogLevel (Str ''a:b'') l2 s1)"
  shows "fst (setLogLevel (Str ''a:b'') l1 s0) = Inr () \<and>
         fst (setLogLevel (Str ''a:b'') l2 s1) = Inr () \<and>
         (\<exists>node. nodesAt (heap s1) (namespaces s1) [''a'', ''b''] = [node] \<and>
                 nodesAt (heap s2) (namespaces s2) [''a'', ''b''] = [node] \<and>
                 node < length (heap s1) \<and>
                 heap s2 = setNodeLevel node l2 (heap s1) \<and>
                 nodeLevel (heap s2 ! node) = Some l2) \<and>
         namespaces s2 = namespaces s1 \<and>
         length (heap s2) = length (heap s1) \<and>
         shouldLog s2 checkLevel (Str ''a:b'') = Inr (levelLe checkLevel l2) \<and>
         setLogLevel (Str ''a:b'') l1 s1 = (Inr (), s1)"
proof -
  note p = namespaceParts_a_b
  have wf0: "wellFormed s0" unfolding s0_def by (rule reachable_invariant)
  have wf1: "wellFormed s1" unfolding s1_def using wf0 by (rule setLogLevel_wellFormed)
  have ok1: "fst (setLogLevel (Str ''a:b'') l1 s0) = Inr ()"
    using wf0 p by (rule setLogLevel_total)
  from setLogLevel_then_find[OF wf0 p, of l1] obtain nodes where
    f1: "findNearestNode s1 [''a'', ''b''] = (nodes, [])"
    and v: "hd nodes < length (heap s1)"
    and lv: "nodeLevel (heap s1 ! hd nodes) = Some l1"
    unfolding s1_def levelSlot_def by auto
  have ne: "nodes \<noteq> []" using f1 by (rule findNearestNode_nodes(1))
  have second: "setLogLevel (Str ''a:b'') l s1
                  = (Inr (), s1\<lparr>heap := setNodeLevel (hd nodes) l (heap s1)\<rparr>)" for l
    using f1 ne by (simp add: setLogLevel_def p)
  have s2: "s2 = s1\<lparr>heap := setNodeLevel (hd nodes) l2 (heap s1)\<rparr>"
    unfolding s2_def by (simp add: second)
  have at1: "nodesAt (heap s1) (namespaces s1) [''a'', ''b''] = [hd nodes]"
    using wf1 f1 by (intro nodesAt_walk[where vis = "[]"]) (simp_all add: wellFormed_def findNearestNode_def)
  have "nodesAt (setNodeLevel (hd nodes) l2 (heap s1)) r ps = nodesAt (heap s1) r ps" for r ps
    by (rule nodesAt_children_cong) simp
  then have at2: "nodesAt (heap s2) (namespaces s2) [''a'', ''b''] = [hd nodes]"
    using at1 by (simp add: s2 del: nodesAt.simps)
  have lv2: "nodeLevel (heap s2 ! hd nodes) = Some l2"
    using v by (simp add: s2 setNodeLevel_def)
  have "findNearestLoop (setNodeLevel (hd nodes) l2 (heap s1)) r [r] ps
          = findNearestLoop (heap s1) r [r] ps" for r ps
    by (rule findNearestLoop_children_cong) simp
  then have f2: "findNearestNode s2 [''a'', ''b''] = (nodes, [])"
    using f1 by (simp add: s2 findNearestNode_def del: findNearestLoop.simps)
  have look: "shouldLog s2 checkLevel (Str ''a:b'') = Inr (levelLe checkLevel l2)"
    using ne lv2 by (simp add: shouldLog_def p f2 nullish_def)
  have "(heap s1 ! hd nodes)\<lparr>nodeLevel := Some l1\<rparr> = heap s1 ! hd nodes"
    using lv by (cases "heap s1 ! hd nodes") simp
  then have "setNodeLevel (hd nodes) l1 (heap s1) = heap s1" by (simp add: setNodeLevel_def)
  then have same: "setLogLevel (Str ''a:b'') l1 s1 = (Inr (), s1)" by (simp add: second)
  show ?thesis using ok1 second[of l2] at1 at2 v lv2 look same by (simp add: s2)
qed

theorem repeated_setLogLevel_in_place_witness:
  "fst (setLogLevel (Str ''a:b'') WARN
          (snd (setLogLevel (Str ''a:b'') WARN (run [SetLogLevel (Str ''a:*'') ERROR] initial))))
     = Inr () \<and>
   shouldLog
     (snd (setLogLevel (Str ''a:b'') WARN
        (snd (setLogLevel (Str ''a:b'') WARN (run [SetLogLevel (Str ''a:*'') ERROR] initial)))))
     DEBUG (Str ''a:b'') = Inr False"
proof -
  note t = repeated_setLogLevel_in_place [of WARN "[SetLogLevel (Str ''a:*'') ERROR]" WARN DEBUG]
  have a: "fst (setLogLevel (Str ''a:b'') WARN
          (snd (setLogLevel (Str ''a:b'') WARN (run [SetLogLevel (Str ''a:*'') ERROR] initial))))
     = Inr ()"
    using t by blast
  have b: "shouldLog
     (snd (setLogLevel (Str ''a:b'') WARN
        (snd (setLogLevel (Str ''a:b'') WARN (run [SetLogLevel (Str ''a:*'') ERROR] initial)))))
     DEBUG (Str ''a:b'') = Inr (levelLe DEBUG WARN)"
    using t by blast
  have c: "levelLe DEBUG WARN = False" by (simp add: levelLe_def)
  show ?thesis using a b unfolding c by blast
qed

text \<open>
  C9. Reset restores the defaults. After any sequence of calls, \<^verbatim>\<open>reset()\<close> makes
  \<^verbatim>\<open>shouldLog(level, namespace)\<close> return, or throw, what it does on a freshly initialised
  tree, for every level and every namespace argument.
\<close>

theorem reset_restores_defaults:
  "shouldLog (reset (run cs initial)) checkLevel ns = shouldLog initial checkLevel ns"
  by (simp add: shouldLog_fresh[where L = DEFAULT_ROOT_LEVEL]
      reset_def initial_def alloc_def createRootNode_def)

theorem reset_restores_defaults_witness:
  "shouldLog (reset (run [SetLogLevel (Str ''a:*'') DEBUG] initial)) DEBUG (Str ''a:b'')
     = shouldLog initial DEBUG (Str ''a:b'')"
  by (rule reset_restores_defaults)

text \<open>
  C10. A leading delimiter passes validation. \<^verbatim>\<open>":a"\<close> parses to the two segments
  \<^verbatim>\<open>""\<close> and \<^verbatim>\<open>"a"\<close>, in a lookup as in a mutation. On a fresh tree
  \<^verbatim>\<open>setLogLevel(":a", level)\<close> succeeds and creates a node whose segment is the empty
  string, and \<^verbatim>\<open>shouldLog(checkLevel, ":a")\<close> then answers from the level set on the node
  below it instead of throwing. After any sequence of calls the two calls succeed in the
  same way.
\<close>

theorem leading_delimiter_accepted:
  "namespaceParts (Str '':a'') allowWildcard = Inr ([[], ''a''], False) \<and>
   setLogLevel (Str '':a'') level initial =
     (Inr (),
      \<lparr>heap =
         [\<lparr>namespacePart = ''$'', children = [([], 1)], nodeLevel = None,
            cascadingLevel = Some INFO\<rparr>,
          \<lparr>namespacePart = [], children = [(''a'', 2)], nodeLevel = None,
            cascadingLevel = None\<rparr>,
          \<lparr>namespacePart = ''a'', children = [], nodeLevel = Some level,
            cascadingLevel = None\<rparr>],
       namespaces = 0\<rparr>) \<and>
   findNearestNode (snd (setLogLevel (Str '':a'') level initial)) [[], ''a''] = ([2, 1, 0], []) \<and>
   shouldLog (snd (setLogLevel (Str '':a'') level initial)) checkLevel (Str '':a'')
     = Inr (levelLe checkLevel level) \<and>
   fst (setLogLevel (Str '':a'') level (run cs initial)) = Inr () \<and>
   shouldLog (snd (setLogLevel (Str '':a'') level (run cs initial))) checkLevel (Str '':a'')
     = Inr (levelLe checkLevel level)"
proof -
  have p: "namespaceParts (Str '':a'') b = Inr ([[], ''a''], False)" for b
    by (simp add: parse_defs)
  have s: "setLogLevel (Str '':a'') level initial =
     (Inr (),
      \<lparr>heap =
         [\<lparr>namespacePart = ''$'', children = [([], 1)], nodeLevel = None,
            cascadingLevel = Some INFO\<rparr>,
          \<lparr>namespacePart = [], children = [(''a'', 2)], nodeLevel = None,
            cascadingLevel = None\<rparr>,
          \<lparr>namespacePart = ''a'', children = [], nodeLevel = Some level,
            cascadingLevel = None\<rparr>],
       namespaces = 0\<rparr>)"
    by (simp add: setLogLevel_def p findNearestNode_def initial_def alloc_def createRootNode_def
        has_def setChild_def newChild_def DEFAULT_ROOT_LEVEL_def ROOT_NAMESPACE_KEY_def)
  have f: "findNearestNode (snd (setLogLevel (Str '':a'') level initial)) [[], ''a'']
             = ([2, 1, 0], [])"
    by (simp add: s findNearestNode_def)
  have l: "shouldLog (snd (setLogLevel (Str '':a'') level initial)) checkLevel (Str '':a'')
             = Inr (levelLe checkLevel level)"
    by (simp add: shouldLog_def p f) (simp add: s nullish_def)
  have wf: "wellFormed (run cs initial)" by (rule reachable_invariant)
  have t: "fst (setLogLevel (Str '':a'') level (run cs initial)) = Inr ()"
    using wf p by (rule setLogLevel_total)
  have g: "shouldLog (snd (setLogLevel (Str '':a'') level (run cs initial))) checkLevel (Str '':a'')
             = Inr (levelLe checkLevel level)"
    using wf p p by (rule setLogLevel_then_shouldLog)
  show ?thesis using p s f l t g by simp
qed

end
